theory Spec2Isabelle
  imports Complex_Main
begin

section \<open>Text normalizer (\<^verbatim>\<open>src/extractors/utils_text.py\<close>)\<close>

text \<open>
  Python strings are modelled as \<^typ>\<open>string\<close>; a character is a code point below 256.
  The character classes below are Python's \<^verbatim>\<open>str.isspace\<close>, the regular expression
  classes \<^verbatim>\<open>\s\<close> and \<^verbatim>\<open>\d\<close>, \<^verbatim>\<open>str.isalnum\<close> and \<^verbatim>\<open>str.lower\<close>, restricted to
  that range.
\<close>

definition isspace :: "char \<Rightarrow> bool" where
  "isspace c =
     (let n = (of_char c :: nat)
      in (9 \<le> n \<and> n \<le> 13) \<or> (28 \<le> n \<and> n \<le> 32) \<or> n = 133 \<or> n = 160)"

definition isdigit :: "char \<Rightarrow> bool" where
  "isdigit c = (let n = (of_char c :: nat) in 48 \<le> n \<and> n \<le> 57)"

definition lower_char :: "char \<Rightarrow> char" where
  "lower_char c =
     (let n = (of_char c :: nat)
      in if (65 \<le> n \<and> n \<le> 90) \<or> (192 \<le> n \<and> n \<le> 222 \<and> n \<noteq> 215)
         then char_of (n + 32) else c)"

definition lower :: "string \<Rightarrow> string" where
  "lower s = map lower_char s"

text \<open>\<^verbatim>\<open>text.split()\<close>: the maximal runs of non-whitespace characters, in order.
  The first argument is the run being read.\<close>

fun split_run :: "string \<Rightarrow> string \<Rightarrow> string list" where
  "split_run cur [] = (if cur = [] then [] else [cur])"
| "split_run cur (c # cs) =
     (if isspace c then (if cur = [] then split_run [] cs else cur # split_run [] cs)
      else split_run (cur @ [c]) cs)"

definition split :: "string \<Rightarrow> string list" where
  "split s = split_run [] s"

text \<open>\<^verbatim>\<open>sep.join(parts)\<close>\<close>

fun join :: "string \<Rightarrow> string list \<Rightarrow> string" where
  "join sep [] = []"
| "join sep [x] = x"
| "join sep (x # y # ys) = x @ sep @ join sep (y # ys)"

text \<open>\<^verbatim>\<open>s.strip()\<close>\<close>

definition strip :: "string \<Rightarrow> string" where
  "strip s = rev (dropWhile isspace (rev (dropWhile isspace s)))"

text \<open>\<^verbatim>\<open>clean_text\<close>: the argument is \<^term>\<open>None\<close> for Python's \<^verbatim>\<open>None\<close>.\<close>

definition clean_text :: "string option \<Rightarrow> string" where
  "clean_text text =
     (case text of
        None \<Rightarrow> []
      | Some t \<Rightarrow> (let cleaned = join '' '' (split t) in strip cleaned))"


subsection \<open>Regular expressions of the module\<close>

text \<open>
  The patterns are matched by hand, left to right, with the choices \<^verbatim>\<open>re\<close> makes.
  \<^verbatim>\<open>\d+\<close> and \<^verbatim>\<open>\s+\<close> take the longest run: in these patterns each is followed by
  something that no character of its own class matches, so a shorter run cannot
  lead to a match. A literal under \<^verbatim>\<open>re.IGNORECASE\<close> matches a character with the
  same lower-case form.
\<close>

definition many1 :: "(char \<Rightarrow> bool) \<Rightarrow> string \<Rightarrow> (string \<times> string) option" where
  "many1 p s =
     (if takeWhile p s = [] then None else Some (takeWhile p s, dropWhile p s))"

definition lit :: "string \<Rightarrow> string \<Rightarrow> string option" where
  "lit w s = (if take (length w) s = w then Some (drop (length w) s) else None)"

definition lit_i :: "string \<Rightarrow> string \<Rightarrow> string option" where
  "lit_i w s =
     (if lower (take (length w) s) = lower w then Some (drop (length w) s) else None)"

definition exactly :: "nat \<Rightarrow> (char \<Rightarrow> bool) \<Rightarrow> string \<Rightarrow> (string \<times> string) option" where
  "exactly n p s =
     (if n \<le> length s \<and> list_all p (take n s) then Some (take n s, drop n s) else None)"

text \<open>\<^verbatim>\<open>pattern.search(text)\<close>: the match at the leftmost position that has one;
  the value is group 1.\<close>

fun re_search :: "(string \<Rightarrow> string option) \<Rightarrow> string \<Rightarrow> string option" where
  "re_search m [] = m []"
| "re_search m (c # cs) =
     (case m (c # cs) of Some g \<Rightarrow> Some g | None \<Rightarrow> re_search m cs)"

text \<open>\<^verbatim>\<open>_HELPFUL_RE = (\d+)\s+people? found this helpful\<close>, \<^verbatim>\<open>re.IGNORECASE\<close>,
  matched at the start of the string. \<^verbatim>\<open>people?\<close> is \<^verbatim>\<open>peopl\<close> and an optional
  \<^verbatim>\<open>e\<close>, tried with the \<^verbatim>\<open>e\<close> first.\<close>

definition HELPFUL_RE :: "string \<Rightarrow> string option" where
  "HELPFUL_RE s =
     Option.bind (many1 isdigit s) (\<lambda>(digits, s1).
     Option.bind (many1 isspace s1) (\<lambda>(ws, s2).
     Option.bind (lit_i ''peopl'' s2) (\<lambda>s3.
       (case Option.bind (lit_i ''e'' s3) (lit_i '' found this helpful'') of
          Some r \<Rightarrow> Some digits
        | None \<Rightarrow> Option.bind (lit_i '' found this helpful'' s3) (\<lambda>r. Some digits)))))"

text \<open>\<^verbatim>\<open>_RATING_RE = ([0-5](?:\.\d)?)\s+out of\s+5\<close>, \<^verbatim>\<open>re.IGNORECASE\<close>.
  \<^term>\<open>rating_tail\<close> is the part after the group.\<close>

definition in_0_5 :: "char \<Rightarrow> bool" where
  "in_0_5 c = (let n = (of_char c :: nat) in 48 \<le> n \<and> n \<le> 53)"

definition rating_tail :: "string \<Rightarrow> string \<Rightarrow> string option" where
  "rating_tail g s =
     Option.bind (many1 isspace s) (\<lambda>(ws, s1).
     Option.bind (lit_i ''out of'' s1) (\<lambda>s2.
     Option.bind (many1 isspace s2) (\<lambda>(ws2, s3).
     Option.bind (lit_i ''5'' s3) (\<lambda>r. Some g))))"

fun RATING_RE :: "string \<Rightarrow> string option" where
  "RATING_RE [] = None"
| "RATING_RE (d # s) =
     (if in_0_5 d then
        (case (case s of
                 p # e # s' \<Rightarrow>
                   if p = CHR ''.'' \<and> isdigit e then rating_tail [d, p, e] s' else None
               | _ \<Rightarrow> None) of
           Some g \<Rightarrow> Some g
         | None \<Rightarrow> rating_tail [d] s)
      else None)"

subsection \<open>Conversions\<close>

text \<open>\<^verbatim>\<open>int(s)\<close> and \<^verbatim>\<open>float(s)\<close> on the strings the patterns capture: a run of
  digits, and a run of digits with an optional fraction. \<^term>\<open>None\<close> is \<^verbatim>\<open>ValueError\<close>.
  \<^verbatim>\<open>int\<close> refuses a string of more digits than \<^verbatim>\<open>sys.get_int_max_str_digits()\<close>, which
  is 4300 unless the interpreter is configured otherwise; \<^verbatim>\<open>float\<close> has no such limit.
  The float is the real number that the decimal denotes.\<close>

definition digit_value :: "char \<Rightarrow> int" where
  "digit_value c = int (of_char c) - 48"

definition decimal :: "string \<Rightarrow> int" where
  "decimal s = foldl (\<lambda>a c. 10 * a + digit_value c) 0 s"

definition digits_value :: "string \<Rightarrow> int option" where
  "digits_value s = (if s \<noteq> [] \<and> list_all isdigit s then Some (decimal s) else None)"

definition int_max_str_digits :: nat where
  "int_max_str_digits = 4300"

definition int_of_str :: "string \<Rightarrow> int option" where
  "int_of_str s = (if length s \<le> int_max_str_digits then digits_value s else None)"

definition float_of_str :: "string \<Rightarrow> real option" where
  "float_of_str s =
     (let ip = takeWhile (\<lambda>c. c \<noteq> CHR ''.'') s;
          r = dropWhile (\<lambda>c. c \<noteq> CHR ''.'') s
      in case digits_value ip of
           None \<Rightarrow> None
         | Some i \<Rightarrow>
             (case r of
                [] \<Rightarrow> Some (real_of_int i)
              | p # fp \<Rightarrow>
                  (case digits_value fp of
                     None \<Rightarrow> None
                   | Some f \<Rightarrow> Some (real_of_int i + real_of_int f / 10 ^ length fp))))"

text \<open>\<^verbatim>\<open>sub in s\<close>\<close>

fun contains :: "string \<Rightarrow> string \<Rightarrow> bool" where
  "contains sub [] = (sub = [])"
| "contains sub (c # cs) = (take (length sub) (c # cs) = sub \<or> contains sub cs)"

subsection \<open>\<^verbatim>\<open>parse_helpful_votes\<close> and \<^verbatim>\<open>parse_rating_score\<close>\<close>

definition parse_helpful_votes :: "string \<Rightarrow> int" where
  "parse_helpful_votes text =
     (if text = [] then 0
      else
        (case Option.bind (re_search HELPFUL_RE text) int_of_str of
           Some n \<Rightarrow> n
         | None \<Rightarrow>
             (let text_lower = lower text
              in if contains ''one person found this helpful'' text_lower then 1 else 0)))"

definition parse_rating_score :: "string \<Rightarrow> real option" where
  "parse_rating_score text =
     (if text = [] then None
      else Option.bind (re_search RATING_RE text) float_of_str)"


section \<open>Scraper (\<^verbatim>\<open>src/extractors/reviews_parser.py\<close>)\<close>

subsection \<open>Data and external capabilities\<close>

datatype error = ValueError string | OverflowError string

text \<open>A \<^verbatim>\<open>bs4\<close> tag, as far as the scraper reads it: the text strings below it in
  document order, and its attributes.\<close>

record tag =
  strings :: "string list"
  attrs :: "(string \<times> string) list"

text \<open>\<^verbatim>\<open>tag.get_text(separator, strip=...)\<close>: with \<^verbatim>\<open>strip\<close>, every string is
  stripped and the empty ones are left out.\<close>

definition get_text :: "string \<Rightarrow> bool \<Rightarrow> tag \<Rightarrow> string" where
  "get_text separator strp t =
     (if strp then join separator (filter (\<lambda>x. x \<noteq> []) (map strip (strings t)))
      else join separator (strings t))"

definition get_attr :: "tag \<Rightarrow> string \<Rightarrow> string option" where
  "get_attr t k = map_of (attrs t) k"

definition has_attr :: "tag \<Rightarrow> string \<Rightarrow> bool" where
  "has_attr t k = (map_of (attrs t) k \<noteq> None)"

text \<open>A review block (\<^verbatim>\<open>div[data-hook='review']\<close>), as the answers to the selector
  queries of \<^verbatim>\<open>_parse_single_review\<close>, one field for each query.\<close>

record block =
  star_rating_alt :: "tag option"  \<comment> \<open>\<^verbatim>\<open>select_one("i[data-hook='review-star-rating'] span.a-icon-alt")\<close>\<close>
  icon_alt :: "tag option"         \<comment> \<open>\<^verbatim>\<open>select_one("span.a-icon-alt")\<close>\<close>
  title_span :: "tag option"       \<comment> \<open>\<^verbatim>\<open>select_one("a[data-hook='review-title'] span")\<close>\<close>
  title_link :: "tag option"       \<comment> \<open>\<^verbatim>\<open>select_one("a[data-hook='review-title']")\<close>\<close>
  helpful_statement :: "tag option" \<comment> \<open>\<^verbatim>\<open>select_one("span[data-hook='helpful-vote-statement']")\<close>\<close>
  review_date :: "tag option"      \<comment> \<open>\<^verbatim>\<open>select_one("span[data-hook='review-date']")\<close>\<close>
  body_span :: "tag option"        \<comment> \<open>\<^verbatim>\<open>select_one("span[data-hook='review-body'] span")\<close>\<close>
  body :: "tag option"             \<comment> \<open>\<^verbatim>\<open>select_one("span[data-hook='review-body']")\<close>\<close>
  avp_badge :: "tag option"        \<comment> \<open>\<^verbatim>\<open>select_one("span[data-hook='avp-badge']")\<close>\<close>
  format_strip :: "tag option"     \<comment> \<open>\<^verbatim>\<open>select_one("a[data-hook='format-strip']")\<close>\<close>
  image_tiles :: "tag list"        \<comment> \<open>\<^verbatim>\<open>select("img[data-hook='review-image-tile']")\<close>\<close>

text \<open>The review dictionary, one field for each key.\<close>

record review =
  productAsin :: string
  ratingScore :: "real option"
  reviewTitle :: string
  reviewUrl :: string
  reviewReaction :: string
  reviewedIn :: string
  reviewDescription :: string
  isVerified :: bool
  variant :: string
  reviewImages :: "string list"
  position :: int
  helpfulVotes :: int

text \<open>What \<^verbatim>\<open>session.get\<close> does: a response with its status code and text, or a
  \<^verbatim>\<open>requests.RequestException\<close>.\<close>

datatype response = Response int string | RequestException

text \<open>The effects of a scrape, in order: a GET of a URL, a \<^verbatim>\<open>time.sleep\<close> of some
  seconds. The seconds are the real number that the float denotes.\<close>

datatype event = Get string | Sleep real

text \<open>\<^verbatim>\<open>urlparse(url)\<close>, as far as it is read.\<close>

record parsed_url =
  path :: string
  query :: string

text \<open>The libraries the scraper calls, with the exceptions they raise. The answer to
  a GET may depend on everything that happened before it. \<^verbatim>\<open>urlparse\<close> and \<^verbatim>\<open>urljoin\<close>
  raise \<^verbatim>\<open>ValueError\<close> on some strings. \<^verbatim>\<open>time.sleep\<close> raises on some durations
  (\<^verbatim>\<open>ValueError\<close> on a negative one, \<^verbatim>\<open>OverflowError\<close> on one too large); \<^term>\<open>None\<close> is
  a sleep that returns.\<close>

record env =
  session_get :: "event list \<Rightarrow> string \<Rightarrow> int \<Rightarrow> string option \<Rightarrow> response"
  select_reviews :: "string \<Rightarrow> block list"
    \<comment> \<open>\<^verbatim>\<open>BeautifulSoup(html, "lxml").select("div[data-hook='review']")\<close>\<close>
  urlparse :: "string \<Rightarrow> error + parsed_url"
  urljoin :: "string \<Rightarrow> string \<Rightarrow> error + string"
  time_sleep :: "real \<Rightarrow> error option"

text \<open>The fields of \<^verbatim>\<open>AmazonReviewsScraper\<close> that its methods read.\<close>

record scraper =
  timeout :: int
  retry_count :: int
  sleep_between_requests :: real
  proxies :: "string option"

definition BASE_DOMAIN :: string where
  "BASE_DOMAIN = ''https://www.amazon.com''"

subsection \<open>URL and HTTP helpers\<close>

text \<open>\<^verbatim>\<open>str(page)\<close> for a page number; pages are counted from 1.\<close>

fun str_nat :: "nat \<Rightarrow> string" where
  "str_nat n =
     (if n < 10 then [char_of (48 + n)]
      else str_nat (n div 10) @ [char_of (48 + n mod 10)])"

definition build_review_page_url :: "string \<Rightarrow> nat \<Rightarrow> string" where
  "build_review_page_url asin page =
     BASE_DOMAIN @ ''/product-reviews/'' @ asin @ ''?pageNumber='' @ str_nat page
       @ ''&sortBy=recent''"

text \<open>\<^verbatim>\<open>time.sleep(secs)\<close> after a given history: the exception, or the history with
  the sleep added.\<close>

definition sleep :: "env \<Rightarrow> real \<Rightarrow> event list \<Rightarrow> error + event list" where
  "sleep e secs tr =
     (case time_sleep e secs of Some exc \<Rightarrow> Inl exc | None \<Rightarrow> Inr (tr @ [Sleep secs]))"

text \<open>The loop of \<^verbatim>\<open>_fetch_html_with_retries\<close> over the attempt numbers that are
  left; the last argument is what has happened so far. The inner \<^verbatim>\<open>case\<close> is the
  \<^verbatim>\<open>try\<close> statement: it returns the text of a response with status 200, and comes to
  the sleep after any other response and after a \<^verbatim>\<open>RequestException\<close>. The sleep is
  outside the \<^verbatim>\<open>try\<close>: what it raises leaves the method. \<^term>\<open>Inl\<close> is an exception
  that leaves the method, \<^term>\<open>Inr None\<close> the \<^verbatim>\<open>return None\<close> at the end. The seconds
  of the sleep are the exact product of the delay and the attempt number; the
  float product is the float nearest to it.\<close>

fun fetch_attempts ::
  "env \<Rightarrow> scraper \<Rightarrow> string \<Rightarrow> int list \<Rightarrow> event list
     \<Rightarrow> (error + string option) \<times> event list" where
  "fetch_attempts e scr url [] tr = (Inr None, tr)"
| "fetch_attempts e scr url (attempt # rest) tr =
     (case (case session_get e tr url (timeout scr) (proxies scr) of
              Response status_code text \<Rightarrow> if status_code = 200 then Some text else None
            | RequestException \<Rightarrow> None) of
        Some text \<Rightarrow> (Inr (Some text), tr @ [Get url])
      | None \<Rightarrow>
          (case sleep e (sleep_between_requests scr * real_of_int attempt) (tr @ [Get url]) of
             Inl exc \<Rightarrow> (Inl exc, tr @ [Get url])
           | Inr tr1 \<Rightarrow> fetch_attempts e scr url rest tr1))"

definition fetch_html_with_retries ::
  "env \<Rightarrow> scraper \<Rightarrow> string \<Rightarrow> event list \<Rightarrow> (error + string option) \<times> event list" where
  "fetch_html_with_retries e scr url tr = fetch_attempts e scr url [1..retry_count scr] tr"

subsection \<open>\<^verbatim>\<open>_extract_asin\<close>\<close>

definition is_A_Z_0_9 :: "char \<Rightarrow> bool" where
  "is_A_Z_0_9 c =
     (let n = (of_char c :: nat) in (65 \<le> n \<and> n \<le> 90) \<or> (48 \<le> n \<and> n \<le> 57))"

text \<open>\<^verbatim>\<open>prefix([A-Z0-9]{10})\<close> at the start of the string, for a literal prefix.\<close>

definition asin_after :: "string \<Rightarrow> string \<Rightarrow> string option" where
  "asin_after prefix s =
     Option.bind (lit prefix s) (\<lambda>s1.
     Option.bind (exactly 10 is_A_Z_0_9 s1) (\<lambda>(g, r). Some g))"

text \<open>\<^verbatim>\<open>[?&]ASIN=([A-Z0-9]{10})\<close> at the start of the string.\<close>

fun asin_param :: "string \<Rightarrow> string option" where
  "asin_param [] = None"
| "asin_param (c # s) =
     (if c = CHR ''?'' \<or> c = CHR ''&'' then asin_after ''ASIN='' s else None)"

text \<open>\<^verbatim>\<open>s.split(sep)\<close> for a separator of one character; the first argument is the
  piece being read.\<close>

fun split_on_run :: "char \<Rightarrow> string \<Rightarrow> string \<Rightarrow> string list" where
  "split_on_run sep cur [] = [cur]"
| "split_on_run sep cur (c # cs) =
     (if c = sep then cur # split_on_run sep [] cs else split_on_run sep (cur @ [c]) cs)"

definition split_on :: "char \<Rightarrow> string \<Rightarrow> string list" where
  "split_on sep s = split_on_run sep [] s"

definition isalnum_char :: "char \<Rightarrow> bool" where
  "isalnum_char c =
     (let n = (of_char c :: nat)
      in (48 \<le> n \<and> n \<le> 57) \<or> (65 \<le> n \<and> n \<le> 90) \<or> (97 \<le> n \<and> n \<le> 122)
         \<or> n = 170 \<or> n = 178 \<or> n = 179 \<or> n = 181 \<or> n = 185 \<or> n = 186
         \<or> (188 \<le> n \<and> n \<le> 190) \<or> (192 \<le> n \<and> n \<le> 214) \<or> (216 \<le> n \<and> n \<le> 246)
         \<or> 248 \<le> n)"

definition isalnum :: "string \<Rightarrow> bool" where
  "isalnum s = (s \<noteq> [] \<and> list_all isalnum_char s)"

definition extract_asin :: "parsed_url \<Rightarrow> string option" where
  "extract_asin parsed =
     (case re_search (asin_after ''/dp/'') (path parsed) of
        Some g \<Rightarrow> Some g
      | None \<Rightarrow>
     (case re_search (asin_after ''/gp/product/'') (path parsed) of
        Some g \<Rightarrow> Some g
      | None \<Rightarrow>
     (case re_search (asin_after ''/product-reviews/'') (path parsed) of
        Some g \<Rightarrow> Some g
      | None \<Rightarrow>
     (case re_search asin_param (query parsed) of
        Some g \<Rightarrow> Some g
      | None \<Rightarrow>
          (let segments = filter (\<lambda>seg. seg \<noteq> []) (split_on CHR ''/'' (path parsed))
           in find (\<lambda>seg. length seg = 10 \<and> isalnum seg) (rev segments))))))"


subsection \<open>Parsing helpers\<close>

text \<open>Python's \<^verbatim>\<open>a or b\<close> on tags that may be \<^verbatim>\<open>None\<close> (a tag is always true), and
  on strings that may be \<^verbatim>\<open>None\<close> (the empty string is false).\<close>

definition tag_or :: "tag option \<Rightarrow> tag option \<Rightarrow> tag option" where
  "tag_or a b = (case a of Some t \<Rightarrow> Some t | None \<Rightarrow> b)"

definition truthy :: "string option \<Rightarrow> bool" where
  "truthy a = (case a of None \<Rightarrow> False | Some x \<Rightarrow> x \<noteq> [])"

definition str_or :: "string option \<Rightarrow> string option \<Rightarrow> string option" where
  "str_or a b = (if truthy a then a else b)"

text \<open>The loop over \<^verbatim>\<open>image_tags\<close>, appending to \<^verbatim>\<open>review_images\<close>.\<close>

fun review_images_of :: "tag list \<Rightarrow> string list" where
  "review_images_of [] = []"
| "review_images_of (img # rest) =
     (let src = str_or (get_attr img ''src'') (get_attr img ''data-src'')
      in if truthy src then the src # review_images_of rest else review_images_of rest)"

text \<open>\<^verbatim>\<open>_parse_single_review\<close>: \<^term>\<open>Inl\<close> is an exception, \<^term>\<open>Inr None\<close> is the
  \<^verbatim>\<open>return None\<close> of a block that is too empty.\<close>

definition parse_single_review :: "env \<Rightarrow> block \<Rightarrow> string \<Rightarrow> int \<Rightarrow> error + review option" where
  "parse_single_review e blk asin pos =
     (let rating_tag = tag_or (star_rating_alt blk) (icon_alt blk);
          rating_text = (case rating_tag of Some t \<Rightarrow> get_text [] True t | None \<Rightarrow> []);
          rating_score = parse_rating_score rating_text;
          title_tag = tag_or (title_span blk) (title_link blk);
          review_title =
            (case title_tag of Some t \<Rightarrow> clean_text (Some (get_text [] True t)) | None \<Rightarrow> []);
          link_tag = title_link blk
      in case (case link_tag of
                 Some t \<Rightarrow>
                   if has_attr t ''href'' then urljoin e BASE_DOMAIN (the (get_attr t ''href''))
                   else Inr []
               | None \<Rightarrow> Inr []) of
           Inl exc \<Rightarrow> Inl exc
         | Inr review_url \<Rightarrow>
     (let review_reaction =
            (case helpful_statement blk of
               Some t \<Rightarrow> clean_text (Some (get_text [] True t))
             | None \<Rightarrow> ''0 people found this helpful'');
          reviewed_in =
            (case review_date blk of
               Some t \<Rightarrow> clean_text (Some (get_text [] True t)) | None \<Rightarrow> []);
          body_tag = tag_or (body_span blk) (body blk);
          review_description =
            (case body_tag of
               Some t \<Rightarrow> clean_text (Some (get_text '' '' True t)) | None \<Rightarrow> []);
          is_verified =
            (case avp_badge blk of
               Some t \<Rightarrow> contains ''Verified Purchase'' (get_text [] False t)
             | None \<Rightarrow> False);
          variant_text =
            (case format_strip blk of
               Some t \<Rightarrow> clean_text (Some (get_text '' '' True t)) | None \<Rightarrow> []);
          review_images = review_images_of (image_tiles blk)
      in if review_description = [] \<and> (rating_score = None \<or> rating_score = Some 0)
         then Inr None
         else Inr (Some \<lparr>
           productAsin = asin,
           ratingScore = rating_score,
           reviewTitle = review_title,
           reviewUrl = review_url,
           reviewReaction = review_reaction,
           reviewedIn = reviewed_in,
           reviewDescription = review_description,
           isVerified = is_verified,
           variant = variant_text,
           reviewImages = review_images,
           position = pos,
           helpfulVotes = parse_helpful_votes review_reaction \<rparr>)))"

text \<open>\<^verbatim>\<open>_parse_reviews_from_soup\<close>, on the blocks that the selector found: a block
  whose parsing raises is logged and skipped.\<close>

fun parse_reviews_from_soup :: "env \<Rightarrow> block list \<Rightarrow> string \<Rightarrow> int \<Rightarrow> review list" where
  "parse_reviews_from_soup e [] asin pos = []"
| "parse_reviews_from_soup e (blk # review_blocks) asin pos =
     (case parse_single_review e blk asin pos of
        Inr (Some review) \<Rightarrow> review # parse_reviews_from_soup e review_blocks asin (pos + 1)
      | Inr None \<Rightarrow> parse_reviews_from_soup e review_blocks asin pos
      | Inl exc \<Rightarrow> parse_reviews_from_soup e review_blocks asin pos)"

subsection \<open>\<^verbatim>\<open>scrape_product_reviews\<close>\<close>

text \<open>\<^verbatim>\<open>xs[:n]\<close>\<close>

definition slice_to :: "int \<Rightarrow> 'a list \<Rightarrow> 'a list" where
  "slice_to n xs =
     (if 0 \<le> n then take (nat n) xs else take (nat (int (length xs) + n)) xs)"

text \<open>The \<^verbatim>\<open>while\<close> loop, from the state at its head: the reviews collected, the
  page number, and what has happened so far. \<^term>\<open>Inl\<close> is an exception that leaves
  the loop, raised by a sleep in the fetcher or by the sleep between two pages.\<close>

function scrape_loop ::
  "env \<Rightarrow> scraper \<Rightarrow> string \<Rightarrow> int \<Rightarrow> review list \<Rightarrow> nat \<Rightarrow> event list
     \<Rightarrow> (error + review list) \<times> event list" where
  "scrape_loop e scr asin max_reviews collected page tr =
     (if int (length collected) < max_reviews then
        (let page_url = build_review_page_url asin page
         in case fetch_html_with_retries e scr page_url tr of
              (Inl exc, tr1) \<Rightarrow> (Inl exc, tr1)
            | (Inr None, tr1) \<Rightarrow> (Inr collected, tr1)
            | (Inr (Some html), tr1) \<Rightarrow>
                if html = [] then (Inr collected, tr1)
                else
                  (let reviews = parse_reviews_from_soup e (select_reviews e html) asin
                                   (int (length collected) + 1)
                   in if reviews = [] then (Inr collected, tr1)
                      else if max_reviews \<le> int (length (collected @ reviews))
                      then (Inr (collected @ reviews), tr1)
                      else
                        (case sleep e (sleep_between_requests scr) tr1 of
                           Inl exc \<Rightarrow> (Inl exc, tr1)
                         | Inr tr2 \<Rightarrow>
                             scrape_loop e scr asin max_reviews (collected @ reviews)
                               (page + 1) tr2)))
      else (Inr collected, tr))"
  by pat_completeness auto
termination
  by (relation "measure (\<lambda>(e, scr, asin, max_reviews, collected, page, tr).
        nat (max_reviews - int (length collected)))") auto

declare scrape_loop.simps [simp del]

text \<open>\<^verbatim>\<open>scrape_product_reviews\<close>. The first \<^verbatim>\<open>case\<close> is the \<^verbatim>\<open>urlparse\<close> call at the start
  of \<^verbatim>\<open>_extract_asin\<close>, whose exception leaves both methods; \<^term>\<open>extract_asin\<close> is the
  rest of \<^verbatim>\<open>_extract_asin\<close>.\<close>

definition scrape_product_reviews ::
  "env \<Rightarrow> scraper \<Rightarrow> string \<Rightarrow> int \<Rightarrow> event list \<Rightarrow> (error + review list) \<times> event list" where
  "scrape_product_reviews e scr product_url max_reviews tr =
     (case urlparse e product_url of
        Inl exc \<Rightarrow> (Inl exc, tr)
      | Inr parsed \<Rightarrow>
     (case extract_asin parsed of
        None \<Rightarrow>
          (Inl (ValueError (''Could not determine ASIN from product URL: '' @ product_url)), tr)
      | Some asin \<Rightarrow>
          if asin = [] then
            (Inl (ValueError (''Could not determine ASIN from product URL: '' @ product_url)), tr)
          else
            (case scrape_loop e scr asin max_reviews [] 1 tr of
               (Inl exc, tr1) \<Rightarrow> (Inl exc, tr1)
             | (Inr collected, tr1) \<Rightarrow> (Inr (slice_to max_reviews collected), tr1))))"

section \<open>Notions used in the statements\<close>

text \<open>A list of words as \<^verbatim>\<open>split()\<close> returns them: no word is empty and none has a
  whitespace character.\<close>

definition words_ok :: "string list \<Rightarrow> bool" where
  "words_ok ws = (\<forall>w \<in> set ws. w \<noteq> [] \<and> (\<forall>c \<in> set w. \<not> isspace c))"

text \<open>The text has, somewhere, a run of digits, whitespace, and then the given word
  and \<^verbatim>\<open> found this helpful\<close> in any letter case.\<close>

definition votes_phrase :: "string \<Rightarrow> string \<Rightarrow> bool" where
  "votes_phrase word text \<longleftrightarrow>
     (\<exists>pre ds ws w post.
        text = pre @ ds @ ws @ w @ post \<and> ds \<noteq> [] \<and> list_all isdigit ds \<and>
        ws \<noteq> [] \<and> list_all isspace ws \<and> lower w = word @ '' found this helpful'')"

text \<open>A number as the rating pattern captures it: a digit from 0 to 5, and possibly
  a point and one more digit.\<close>

definition rating_number :: "string \<Rightarrow> bool" where
  "rating_number g \<longleftrightarrow>
     (\<exists>d. g = [d] \<and> in_0_5 d) \<or> (\<exists>d e. g = [d, CHR ''.'', e] \<and> in_0_5 d \<and> isdigit e)"

text \<open>The text has, somewhere, such a number, whitespace, \<^verbatim>\<open>out of\<close> in any letter
  case, whitespace and \<^verbatim>\<open>5\<close>.\<close>

definition rating_phrase :: "string \<Rightarrow> bool" where
  "rating_phrase text \<longleftrightarrow>
     (\<exists>pre g ws1 w ws2 post.
        text = pre @ g @ ws1 @ w @ ws2 @ ''5'' @ post \<and> rating_number g \<and>
        ws1 \<noteq> [] \<and> list_all isspace ws1 \<and> lower w = ''out of'' \<and>
        ws2 \<noteq> [] \<and> list_all isspace ws2)"

text \<open>The entry of one image tile as the specification words it: the \<^verbatim>\<open>src\<close>
  attribute when the node has one, else the \<^verbatim>\<open>data-src\<close> attribute when it has
  one, else nothing.\<close>

definition image_entry_present :: "tag \<Rightarrow> string list" where
  "image_entry_present img =
     (case get_attr img ''src'' of
        Some s \<Rightarrow> [s]
      | None \<Rightarrow> (case get_attr img ''data-src'' of Some d \<Rightarrow> [d] | None \<Rightarrow> []))"

text \<open>The same with an empty attribute counted as a missing one.\<close>

definition nonempty_attr :: "tag \<Rightarrow> string \<Rightarrow> string option" where
  "nonempty_attr img k =
     (case get_attr img k of None \<Rightarrow> None | Some v \<Rightarrow> if v = [] then None else Some v)"

definition image_entry :: "tag \<Rightarrow> string list" where
  "image_entry img =
     (case nonempty_attr img ''src'' of
        Some s \<Rightarrow> [s]
      | None \<Rightarrow> (case nonempty_attr img ''data-src'' of Some d \<Rightarrow> [d] | None \<Rightarrow> []))"

text \<open>Libraries and blocks for the examples. \<^term>\<open>std_sleep\<close> is \<^verbatim>\<open>time.sleep\<close> on the
  durations of the examples: it raises on a negative one. \<^term>\<open>offline\<close> has no
  network and no blocks, and a \<^verbatim>\<open>urljoin\<close> that appends the reference to the base.\<close>

definition std_sleep :: "real \<Rightarrow> error option" where
  "std_sleep secs =
     (if secs < 0 then Some (ValueError ''sleep length must be non-negative'') else None)"

definition offline :: env where
  "offline = \<lparr> session_get = (\<lambda>tr url t p. RequestException),
               select_reviews = (\<lambda>html. []),
               urlparse = (\<lambda>url. Inr \<lparr> path = [], query = [] \<rparr>),
               urljoin = (\<lambda>base ref. Inr (base @ ref)),
               time_sleep = std_sleep \<rparr>"

definition empty_block :: block where
  "empty_block = \<lparr> star_rating_alt = None, icon_alt = None, title_span = None,
                    title_link = None, helpful_statement = None, review_date = None,
                    body_span = None, body = None, avp_badge = None, format_strip = None,
                    image_tiles = [] \<rparr>"

text \<open>A block with a body and one image tile whose \<^verbatim>\<open>src\<close> is empty and whose
  \<^verbatim>\<open>data-src\<close> is not.\<close>

definition lazy_image_block :: block where
  "lazy_image_block =
     empty_block \<lparr> body := Some \<lparr> strings = [''Good''], attrs = [] \<rparr>,
                   image_tiles :=
                     [\<lparr> strings = [], attrs = [(''src'', ''''), (''data-src'', ''a.jpg'')] \<rparr>] \<rparr>"

text \<open>A block with no body whose rating text is \<^verbatim>\<open>0.0 out of 5 stars\<close>.\<close>

definition zero_rating_block :: block where
  "zero_rating_block =
     empty_block \<lparr> star_rating_alt := Some \<lparr> strings = [''0.0 out of 5 stars''], attrs = [] \<rparr> \<rparr>"

text \<open>A block with a body and three image tiles: one with both attributes, one with
  \<^verbatim>\<open>data-src\<close> only, one with neither.\<close>

definition gallery_block :: block where
  "gallery_block =
     empty_block \<lparr> body := Some \<lparr> strings = [''Good''], attrs = [] \<rparr>,
                   image_tiles :=
                     [\<lparr> strings = [], attrs = [(''src'', ''a.jpg''), (''data-src'', ''b.jpg'')] \<rparr>,
                      \<lparr> strings = [], attrs = [(''data-src'', ''c.jpg'')] \<rparr>,
                      \<lparr> strings = [], attrs = [(''alt'', ''photo'')] \<rparr>] \<rparr>"





text \<open>A block gives a record: the extractor neither raises on it nor discards it.
  The position plays no part in that.\<close>

definition emits :: "env \<Rightarrow> string \<Rightarrow> block \<Rightarrow> bool" where
  "emits e asin blk =
     (case parse_single_review e blk asin 0 of Inr (Some review) \<Rightarrow> True | _ \<Rightarrow> False)"

text \<open>The pages from a given number on are fetched one after the other, with the
  pause between two of them, and these are their bodies.\<close>

fun fetched_pages ::
  "env \<Rightarrow> scraper \<Rightarrow> string \<Rightarrow> nat \<Rightarrow> event list \<Rightarrow> string list \<Rightarrow> bool" where
  "fetched_pages e scr asin page tr [] = True"
| "fetched_pages e scr asin page tr (html # htmls) =
     (case fetch_html_with_retries e scr (build_review_page_url asin page) tr of
        (Inr (Some h), tr1) \<Rightarrow>
          h = html \<and>
          (htmls = [] \<or>
           (case sleep e (sleep_between_requests scr) tr1 of
              Inl exc \<Rightarrow> False
            | Inr tr2 \<Rightarrow> fetched_pages e scr asin (page + 1) tr2 htmls))
      | other \<Rightarrow> False)"

text \<open>A scraper with the constructor's defaults and a delay of one second, the same
  with a negative delay, and a network that answers 503 to the first GET and 200
  from then on.\<close>

definition default_scraper :: scraper where
  "default_scraper = \<lparr> timeout = 20, retry_count = 3, sleep_between_requests = 1,
                        proxies = None \<rparr>"



text \<open>A product with two pages of reviews. The first page has seven blocks: five
  with a body, one empty, and one whose link makes \<^verbatim>\<open>urljoin\<close> raise; the second has
  three with a body. \<^term>\<open>a_review\<close> is the record of a block that has only a body.
  \<^verbatim>\<open>urlparse\<close> raises on the URL \<^verbatim>\<open>http://[dp/B08N5WRWNW\<close>. \<^term>\<open>second_page_down\<close> is the
  same product when the second page cannot be fetched.\<close>

definition review_block :: "string \<Rightarrow> block" where
  "review_block b = empty_block \<lparr> body := Some \<lparr> strings = [b], attrs = [] \<rparr> \<rparr>"

definition broken_block :: block where
  "broken_block =
     empty_block \<lparr> title_link := Some \<lparr> strings = [''Bad link''], attrs = [(''href'', ''//['')] \<rparr>,
                   body := Some \<lparr> strings = [''Lost''], attrs = [] \<rparr> \<rparr>"

definition a_review :: "string \<Rightarrow> int \<Rightarrow> review" where
  "a_review b pos =
     \<lparr> productAsin = ''B08N5WRWNW'', ratingScore = None, reviewTitle = [], reviewUrl = [],
       reviewReaction = ''0 people found this helpful'', reviewedIn = [],
       reviewDescription = b, isVerified = False, variant = [], reviewImages = [],
       position = pos, helpfulVotes = 0 \<rparr>"

definition page_1_url :: string where
  "page_1_url = ''https://www.amazon.com/product-reviews/B08N5WRWNW?pageNumber=1&sortBy=recent''"

definition page_2_url :: string where
  "page_2_url = ''https://www.amazon.com/product-reviews/B08N5WRWNW?pageNumber=2&sortBy=recent''"

definition page_1_blocks :: "block list" where
  "page_1_blocks =
     [review_block ''one'', empty_block, review_block ''two'', broken_block,
      review_block ''three'', review_block ''four'', review_block ''five'']"

definition page_2_blocks :: "block list" where
  "page_2_blocks = [review_block ''six'', review_block ''seven'', review_block ''eight'']"

definition two_pages :: env where
  "two_pages =
     \<lparr> session_get = (\<lambda>tr url t p.
         if url = page_1_url then Response 200 ''page 1''
         else if url = page_2_url then Response 200 ''page 2''
         else Response 404 ''no such page''),
       select_reviews = (\<lambda>html.
         if html = ''page 1'' then page_1_blocks
         else if html = ''page 2'' then page_2_blocks
         else []),
       urlparse = (\<lambda>url.
         if url = ''http://[dp/B08N5WRWNW'' then Inl (ValueError ''Invalid IPv6 URL'')
         else Inr \<lparr> path = ''/dp/B08N5WRWNW'', query = [] \<rparr>),
       urljoin = (\<lambda>base ref.
         if ref = ''//['' then Inl (ValueError ''Invalid IPv6 URL'') else Inr (base @ ref)),
       time_sleep = std_sleep \<rparr>"


section \<open>Properties of the text normalizer\<close>

lemma words_ok_simps:
  "words_ok []"
  "words_ok (w # ws) \<longleftrightarrow> w \<noteq> [] \<and> (\<forall>c \<in> set w. \<not> isspace c) \<and> words_ok ws"
  by (auto simp: words_ok_def)

lemma split_run_append:
  "\<forall>c \<in> set w. \<not> isspace c \<Longrightarrow> split_run cur (w @ rest) = split_run (cur @ w) rest"
  by (induction w arbitrary: cur) simp_all

lemma split_run_words_ok:
  "\<forall>c \<in> set cur. \<not> isspace c \<Longrightarrow> words_ok (split_run cur s)"
proof (induction s arbitrary: cur)
  case Nil
  then show ?case by (simp add: words_ok_simps)
next
  case (Cons a s)
  show ?case
  proof (cases "isspace a")
    case True
    have "words_ok (split_run [] s)" by (rule Cons.IH) simp
    with True Cons.prems show ?thesis by (simp add: words_ok_simps)
  next
    case False
    with Cons.prems have "words_ok (split_run (cur @ [a]) s)"
      by (intro Cons.IH) simp
    with False show ?thesis by simp
  qed
qed

lemma split_words_ok: "words_ok (split s)"
  by (simp add: split_def split_run_words_ok)

text \<open>Splitting a string that was joined from words gives the words back.\<close>

lemma split_run_join:
  "words_ok ws \<Longrightarrow> split_run [] (join '' '' ws) = ws"
proof (induction "'' ''" ws rule: join.induct)
  case 1
  then show ?case by simp
next
  case (2 x)
  then have "\<forall>c \<in> set x. \<not> isspace c" and "x \<noteq> []"
    by (simp_all add: words_ok_simps)
  then show ?case
    using split_run_append [of x "[]" "[]"] by simp
next
  case (3 x y ys)
  then have x: "\<forall>c \<in> set x. \<not> isspace c" "x \<noteq> []" and rest: "words_ok (y # ys)"
    by (simp_all add: words_ok_simps)
  have sp: "isspace CHR '' ''" by (simp add: isspace_def)
  have "split_run [] (x @ '' '' @ join '' '' (y # ys)) = split_run x ('' '' @ join '' '' (y # ys))"
    using split_run_append [OF x(1), of "[]"] by simp
  also have "\<dots> = x # split_run [] (join '' '' (y # ys))"
    using x(2) sp by simp
  finally show ?case using 3 rest by simp
qed

text \<open>A string joined from words neither starts nor ends with whitespace, so
  \<^verbatim>\<open>strip\<close> leaves it as it is.\<close>

lemma join_ends:
  "words_ok ws \<Longrightarrow> join '' '' ws = [] \<or>
     (\<not> isspace (hd (join '' '' ws)) \<and> \<not> isspace (last (join '' '' ws)))"
proof (induction "'' ''" ws rule: join.induct)
  case 1
  then show ?case by simp
next
  case (2 x)
  then have "x \<noteq> []" and "\<forall>c \<in> set x. \<not> isspace c"
    by (simp_all add: words_ok_simps)
  then have "hd x \<in> set x" and "last x \<in> set x" and "\<forall>c \<in> set x. \<not> isspace c"
    by simp_all
  then show ?case by auto
next
  case (3 x y ys)
  then have x: "\<forall>c \<in> set x. \<not> isspace c" "x \<noteq> []" and rest: "words_ok (y # ys)"
    by (simp_all add: words_ok_simps)
  from rest have "y \<noteq> []" by (simp add: words_ok_simps)
  then have ne: "join '' '' (y # ys) \<noteq> []" by (cases ys) simp_all
  with 3 rest have l: "\<not> isspace (last (join '' '' (y # ys)))" by blast
  from x have h: "\<not> isspace (hd x)" by (cases x) simp_all
  from ne x l h show ?case by (simp add: hd_append)
qed

lemma dropWhile_id: "xs = [] \<or> \<not> P (hd xs) \<Longrightarrow> dropWhile P xs = xs"
  by (cases xs) auto

lemma strip_id:
  assumes "s = [] \<or> (\<not> isspace (hd s) \<and> \<not> isspace (last s))"
  shows "strip s = s"
proof -
  have 1: "dropWhile isspace s = s"
    using assms by (intro dropWhile_id) blast
  have 2: "dropWhile isspace (rev s) = rev s"
    using assms by (intro dropWhile_id) (auto simp: hd_rev)
  show ?thesis by (simp add: strip_def 1 2)
qed

lemma clean_text_join: "clean_text (Some t) = join '' '' (split t)"
  using strip_id [OF join_ends [OF split_words_ok]] by (simp add: clean_text_def)

text \<open>
  Claim C10. \<^verbatim>\<open>clean_text\<close> is idempotent: cleaning the output of \<^verbatim>\<open>clean_text\<close>
  again changes nothing, for every input string and for \<^verbatim>\<open>None\<close>.
\<close>

theorem clean_text_idempotent: "clean_text (Some (clean_text t)) = clean_text t"
proof (cases t)
  case None
  then show ?thesis by (simp add: clean_text_def split_def strip_def)
next
  case (Some s)
  have "split (join '' '' (split s)) = split s"
    using split_run_join [OF split_words_ok] by (simp add: split_def)
  with Some show ?thesis by (simp add: clean_text_join)
qed

subsection \<open>The pattern combinators\<close>

lemma of_char_lower_char:
  "(of_char (lower_char c) :: nat) =
     (if (65 \<le> (of_char c :: nat) \<and> (of_char c :: nat) \<le> 90)
         \<or> (192 \<le> (of_char c :: nat) \<and> (of_char c :: nat) \<le> 222 \<and> (of_char c :: nat) \<noteq> 215)
      then of_char c + 32 else of_char c)"
  by (simp add: lower_char_def Let_def)

lemma isspace_lower_char: "isspace (lower_char c) = isspace c"
  unfolding isspace_def Let_def of_char_lower_char by auto

lemma isdigit_lower_char: "isdigit (lower_char c) = isdigit c"
  unfolding isdigit_def Let_def of_char_lower_char by auto

lemma isspace_not_isdigit: "isspace c \<Longrightarrow> \<not> isdigit c"
  by (auto simp: isspace_def isdigit_def Let_def)

lemma many1_Some_iff:
  "many1 p s = Some (a, b) \<longleftrightarrow>
     a \<noteq> [] \<and> s = a @ b \<and> list_all p a \<and> (b = [] \<or> \<not> p (hd b))"
proof
  assume "many1 p s = Some (a, b)"
  then have a: "a = takeWhile p s" and b: "b = dropWhile p s" and ne: "a \<noteq> []"
    by (auto simp: many1_def split: if_splits)
  have "b = [] \<or> \<not> p (hd b)"
    unfolding b by (metis hd_dropWhile)
  moreover have "list_all p a"
    unfolding a by (simp add: list_all_iff) (meson set_takeWhileD)
  ultimately show "a \<noteq> [] \<and> s = a @ b \<and> list_all p a \<and> (b = [] \<or> \<not> p (hd b))"
    using ne a b by simp
next
  assume r: "a \<noteq> [] \<and> s = a @ b \<and> list_all p a \<and> (b = [] \<or> \<not> p (hd b))"
  then have "takeWhile p b = []"
    by (cases b) auto
  with r have "takeWhile p s = a"
    by (simp add: list_all_iff)
  moreover from r have "dropWhile p s = b"
    by (cases b) (auto simp: list_all_iff dropWhile_append)
  ultimately show "many1 p s = Some (a, b)"
    using r by (simp add: many1_def)
qed

lemma many1_None_iff: "many1 p s = None \<longleftrightarrow> s = [] \<or> \<not> p (hd s)"
  by (cases s) (auto simp: many1_def)

lemma lit_i_Some_iff:
  "lit_i w s = Some r \<longleftrightarrow> (\<exists>u. s = u @ r \<and> lower u = lower w)"
proof
  assume "lit_i w s = Some r"
  then have "lower (take (length w) s) = lower w" and "r = drop (length w) s"
    by (auto simp: lit_i_def split: if_splits)
  then have "s = take (length w) s @ r \<and> lower (take (length w) s) = lower w" by simp
  then show "\<exists>u. s = u @ r \<and> lower u = lower w" by blast
next
  assume "\<exists>u. s = u @ r \<and> lower u = lower w"
  then obtain u where u: "s = u @ r" "lower u = lower w" by blast
  then have "length u = length w"
    by (metis length_map lower_def)
  with u show "lit_i w s = Some r" by (simp add: lit_i_def)
qed

lemma lit_i_append:
  "lit_i (a @ b) s = Option.bind (lit_i a s) (lit_i b)"
proof (cases "lit_i (a @ b) s")
  case None
  show ?thesis
  proof (rule ccontr)
    assume "lit_i (a @ b) s \<noteq> Option.bind (lit_i a s) (lit_i b)"
    with None obtain r where "Option.bind (lit_i a s) (lit_i b) = Some r" by fastforce
    then obtain r1 where "lit_i a s = Some r1" "lit_i b r1 = Some r"
      by (auto simp: bind_eq_Some_conv)
    then obtain u v where "s = u @ r1" "lower u = lower a" "r1 = v @ r" "lower v = lower b"
      by (auto simp: lit_i_Some_iff)
    then have "s = (u @ v) @ r \<and> lower (u @ v) = lower (a @ b)" by (simp add: lower_def)
    then have "lit_i (a @ b) s = Some r" unfolding lit_i_Some_iff by blast
    with None show False by simp
  qed
next
  case (Some r)
  then obtain u where u: "s = u @ r" "lower u = lower (a @ b)" by (auto simp: lit_i_Some_iff)
  then have len: "length u = length a + length b" by (metis length_map lower_def length_append)
  define u1 where "u1 = take (length a) u"
  define u2 where "u2 = drop (length a) u"
  have "u = u1 @ u2" by (simp add: u1_def u2_def)
  moreover have "lower u1 = lower a" "lower u2 = lower b"
    using u(2) len by (simp_all add: u1_def u2_def lower_def take_map [symmetric] drop_map [symmetric])
  ultimately have "lit_i a s = Some (u2 @ r)" "lit_i b (u2 @ r) = Some r"
    using u(1) unfolding lit_i_Some_iff by auto
  with Some show ?thesis by simp
qed

subsection \<open>Searching, and the helpful-votes pattern\<close>

lemma re_search_hit: "m s = Some g \<Longrightarrow> re_search m s = Some g"
  by (cases s) simp_all

lemma re_search_Some:
  "re_search m s = Some g \<Longrightarrow> \<exists>pre t. s = pre @ t \<and> m t = Some g"
proof (induction s)
  case Nil
  then show ?case by simp
next
  case (Cons c cs)
  show ?case
  proof (cases "m (c # cs)")
    case None
    with Cons obtain pre t where "cs = pre @ t" "m t = Some g" by auto
    then have "c # cs = (c # pre) @ t \<and> m t = Some g" by simp
    then show ?thesis by blast
  next
    case (Some a)
    with Cons.prems have "c # cs = [] @ (c # cs) \<and> m (c # cs) = Some g" by simp
    then show ?thesis by blast
  qed
qed

lemma re_search_None:
  "(\<And>pre t. s = pre @ t \<Longrightarrow> m t = None) \<Longrightarrow> re_search m s = None"
  by (metis re_search_Some not_Some_eq)

lemma lower_people: "lower ''people found this helpful'' = ''people found this helpful''"
  by code_simp

lemma lower_peopl: "lower ''peopl found this helpful'' = ''peopl found this helpful''"
  by code_simp

lemma HELPFUL_RE_tail:
  "Option.bind (lit_i ''peopl'' s2) (\<lambda>s3.
       (case Option.bind (lit_i ''e'' s3) (lit_i '' found this helpful'') of
          Some r \<Rightarrow> Some d
        | None \<Rightarrow> Option.bind (lit_i '' found this helpful'' s3) (\<lambda>r. Some d)))
   = (if lit_i ''people found this helpful'' s2 \<noteq> None
         \<or> lit_i ''peopl found this helpful'' s2 \<noteq> None then Some d else None)"
proof -
  have 1: "lit_i ''people found this helpful'' s2
      = Option.bind (lit_i ''peopl'' s2) (\<lambda>s3. Option.bind (lit_i ''e'' s3) (lit_i '' found this helpful''))"
  proof -
    have "lit_i ''e found this helpful'' = (\<lambda>s3. Option.bind (lit_i ''e'' s3) (lit_i '' found this helpful''))"
      using lit_i_append [of "''e''" "'' found this helpful''"] by (intro ext) simp
    then show ?thesis
      using lit_i_append [of "''peopl''" "''e found this helpful''" s2] by simp
  qed
  have 2: "lit_i ''peopl found this helpful'' s2
      = Option.bind (lit_i ''peopl'' s2) (lit_i '' found this helpful'')"
    using lit_i_append [of "''peopl''" "'' found this helpful''" s2] by simp
  show ?thesis
    unfolding 1 2
    by (cases "lit_i ''peopl'' s2"; cases "lit_i ''e'' (the (lit_i ''peopl'' s2))";
        cases "lit_i '' found this helpful'' (the (lit_i ''peopl'' s2))";
        cases "lit_i '' found this helpful'' (the (lit_i ''e'' (the (lit_i ''peopl'' s2))))")
       simp_all
qed

lemma HELPFUL_RE_Some_iff:
  "HELPFUL_RE s = Some g \<longleftrightarrow>
     (\<exists>ws w post. s = g @ ws @ w @ post \<and> g \<noteq> [] \<and> list_all isdigit g \<and>
        ws \<noteq> [] \<and> list_all isspace ws \<and>
        (lower w = ''people found this helpful'' \<or> lower w = ''peopl found this helpful''))"
  (is "?L \<longleftrightarrow> ?R")
proof
  assume ?L
  then obtain s1 ws s2 where d: "many1 isdigit s = Some (g, s1)"
    and w: "many1 isspace s1 = Some (ws, s2)"
    and t: "lit_i ''people found this helpful'' s2 \<noteq> None
         \<or> lit_i ''peopl found this helpful'' s2 \<noteq> None"
    unfolding HELPFUL_RE_def HELPFUL_RE_tail
    by (auto simp: bind_eq_Some_conv split: if_splits)
  from t obtain u r where u: "s2 = u @ r"
    "lower u = ''people found this helpful'' \<or> lower u = ''peopl found this helpful''"
    using lower_people lower_peopl by (auto simp: lit_i_Some_iff)
  from d w u show ?R
    unfolding many1_Some_iff by auto
next
  assume ?R
  then obtain ws w post where s: "s = g @ ws @ w @ post" and g: "g \<noteq> []" "list_all isdigit g"
    and ws: "ws \<noteq> []" "list_all isspace ws"
    and w: "lower w = ''people found this helpful'' \<or> lower w = ''peopl found this helpful''"
    by blast
  from ws have "isspace (hd ws)" by (cases ws) simp_all
  then have "\<not> isdigit (hd (ws @ w @ post))"
    using ws(1) by (simp add: isspace_not_isdigit)
  with g s have d: "many1 isdigit s = Some (g, ws @ w @ post)"
    unfolding many1_Some_iff by simp
  from w have "w \<noteq> []" and "lower_char (hd w) = CHR ''p''"
    by (cases w; auto simp: lower_def)+
  then have "\<not> isspace (hd w)"
    using isspace_lower_char [of "hd w"] by (simp add: isspace_def)
  with \<open>w \<noteq> []\<close> ws have sp: "many1 isspace (ws @ w @ post) = Some (ws, w @ post)"
    unfolding many1_Some_iff by simp
  from w have "lit_i ''people found this helpful'' (w @ post) = Some post
      \<or> lit_i ''peopl found this helpful'' (w @ post) = Some post"
    unfolding lit_i_Some_iff lower_people lower_peopl by auto
  then show ?L
    unfolding HELPFUL_RE_def HELPFUL_RE_tail using d sp by auto
qed

lemma re_search_HELPFUL_RE_None:
  "\<not> votes_phrase ''people'' text \<Longrightarrow> \<not> votes_phrase ''peopl'' text
     \<Longrightarrow> re_search HELPFUL_RE text = None"
proof (rule re_search_None)
  fix pre t
  assume no: "\<not> votes_phrase ''people'' text" "\<not> votes_phrase ''peopl'' text"
    and tx: "text = pre @ t"
  show "HELPFUL_RE t = None"
  proof (rule ccontr)
    assume "HELPFUL_RE t \<noteq> None"
    then obtain g where "HELPFUL_RE t = Some g" by blast
    then obtain ws w post where "t = g @ ws @ w @ post" "g \<noteq> []" "list_all isdigit g"
      "ws \<noteq> []" "list_all isspace ws"
      "lower w = ''people found this helpful'' \<or> lower w = ''peopl found this helpful''"
      unfolding HELPFUL_RE_Some_iff by blast
    with tx have "votes_phrase ''people'' text \<or> votes_phrase ''peopl'' text"
      unfolding votes_phrase_def by (elim disjE) (simp; blast)+
    with no show False by blast
  qed
qed

lemma no_digit_no_votes_phrase:
  assumes "\<forall>c \<in> set text. \<not> isdigit c"
  shows "\<not> votes_phrase word text"
proof
  assume "votes_phrase word text"
  then obtain pre ds ws w post where "text = pre @ ds @ ws @ w @ post" "ds \<noteq> []"
    "list_all isdigit ds"
    unfolding votes_phrase_def by blast
  then have "hd ds \<in> set text" and "isdigit (hd ds)"
    by (cases ds; simp)+
  with assms show False by blast
qed

lemma re_search_skip_suffixes:
  "(\<And>p1 p2. pre = p1 @ p2 \<Longrightarrow> p2 \<noteq> [] \<Longrightarrow> m (p2 @ s) = None)
     \<Longrightarrow> re_search m (pre @ s) = re_search m s"
proof (induction pre)
  case Nil
  then show ?case by simp
next
  case (Cons c pre)
  have "m ((c # pre) @ s) = None"
    by (rule Cons.prems [of "[]"]) simp_all
  moreover have "re_search m (pre @ s) = re_search m s"
  proof (rule Cons.IH)
    fix p1 p2 assume "pre = p1 @ p2" "p2 \<noteq> []"
    then show "m (p2 @ s) = None"
      using Cons.prems [of "c # p1" p2] by simp
  qed
  ultimately show ?case by simp
qed

lemma lower_not_digit:
  assumes "lower w = l" and "\<forall>c \<in> set l. \<not> isdigit c"
  shows "\<forall>c \<in> set w. \<not> isdigit c"
proof
  fix c assume "c \<in> set w"
  then have "lower_char c \<in> set l" using assms(1) by (auto simp: lower_def)
  with assms(2) have "\<not> isdigit (lower_char c)" by blast
  then show "\<not> isdigit c" by (simp add: isdigit_lower_char)
qed

lemma votes_word_not_digit:
  assumes "lower w = ''people found this helpful'' \<or> lower w = ''peopl found this helpful''"
  shows "\<forall>c \<in> set w. \<not> isdigit c"
proof -
  have "\<forall>c \<in> set ''people found this helpful''. \<not> isdigit c"
    "\<forall>c \<in> set ''peopl found this helpful''. \<not> isdigit c"
    by (simp_all add: isdigit_def)
  with assms show ?thesis using lower_not_digit by blast
qed

lemma append_eq_cases:
  assumes "xs @ ys = zs @ ts"
  obtains (left) u where "xs = zs @ u" "ts = u @ ys"
    | (right) u where "u \<noteq> []" "xs @ u = zs" "ys = u @ ts"
proof -
  from assms obtain us where "xs = zs @ us \<and> us @ ys = ts \<or> xs @ us = zs \<and> ys = us @ ts"
    unfolding append_eq_append_conv2 by blast
  then show thesis
  proof
    assume "xs = zs @ us \<and> us @ ys = ts"
    then show thesis using left by blast
  next
    assume a: "xs @ us = zs \<and> ys = us @ ts"
    show thesis
    proof (cases "us = []")
      case True
      with a have "xs = zs @ []" "ts = [] @ ys" by simp_all
      then show thesis by (rule left)
    next
      case False
      with a show thesis using right by blast
    qed
  qed
qed

text \<open>No match begins before a run of digits that has no digit before it, unless
  the whole match lies before the run.\<close>

lemma HELPFUL_RE_no_earlier:
  assumes p2: "p2 \<noteq> []" "\<not> isdigit (last p2)"
    and no: "\<not> votes_phrase ''people'' (p1 @ p2)" "\<not> votes_phrase ''peopl'' (p1 @ p2)"
    and ds: "ds \<noteq> []" "list_all isdigit ds"
  shows "HELPFUL_RE (p2 @ ds @ rest) = None"
proof (rule ccontr)
  assume "HELPFUL_RE (p2 @ ds @ rest) \<noteq> None"
  then obtain g where "HELPFUL_RE (p2 @ ds @ rest) = Some g" by blast
  then obtain ws w post where eq: "p2 @ ds @ rest = g @ ws @ w @ post"
    and g: "g \<noteq> []" "list_all isdigit g" and ws: "ws \<noteq> []" "list_all isspace ws"
    and w: "lower w = ''people found this helpful'' \<or> lower w = ''peopl found this helpful''"
    unfolding HELPFUL_RE_Some_iff by blast
  have nd: "\<forall>c \<in> set (ws @ w). \<not> isdigit c"
    using ws votes_word_not_digit [OF w] by (auto simp: list_all_iff isspace_not_isdigit)
  from eq have "p2 @ (ds @ rest) = (g @ ws @ w) @ post" by simp
  then show False
  proof (cases rule: append_eq_cases)
    case (left u)
    then have "p1 @ p2 = p1 @ g @ ws @ w @ u" by simp
    with g ws w have "votes_phrase ''people'' (p1 @ p2) \<or> votes_phrase ''peopl'' (p1 @ p2)"
      unfolding votes_phrase_def by (elim disjE) (simp; blast)+
    with no show False by blast
  next
    case (right u)
    from right(1,3) ds have hd: "isdigit (hd u)"
      by (cases u; cases ds) simp_all
    from right(2) have "p2 @ u = g @ (ws @ w)" by simp
    then show False
    proof (cases rule: append_eq_cases)
      case (left v)
      with right(1) have "hd u \<in> set (ws @ w)"
        by (cases u) simp_all
      with nd hd show False by blast
    next
      case (right v)
      with p2(1) have "last p2 \<in> set g" by auto
      with g(2) p2(2) show False by (simp add: list_all_iff)
    qed
  qed
qed

lemma votes_phrase_length:
  assumes "votes_phrase word s"
  shows "length word + 21 \<le> length s"
proof -
  from assms obtain pre ds ws w post where s: "s = pre @ ds @ ws @ w @ post"
    and "ds \<noteq> []" "ws \<noteq> []" and w: "lower w = word @ '' found this helpful''"
    unfolding votes_phrase_def by blast
  then have "1 \<le> length ds" "1 \<le> length ws"
    by (simp_all add: Suc_leI)
  moreover have "length w = length word + 19"
  proof -
    have "length (lower w) = length (word @ '' found this helpful'')"
      using w by (rule arg_cong)
    then show ?thesis by (simp add: lower_def)
  qed
  ultimately show ?thesis using s by simp
qed

lemma contains_set: "contains sub s \<Longrightarrow> set sub \<subseteq> set s"
proof (induction s)
  case Nil
  then show ?case by simp
next
  case (Cons c cs)
  from Cons.prems have "take (length sub) (c # cs) = sub \<or> contains sub cs" by simp
  then show ?case
  proof
    assume "take (length sub) (c # cs) = sub"
    then have "set sub = set (take (length sub) (c # cs))" by simp
    then show ?thesis using set_take_subset [of "length sub" "c # cs"] by simp
  next
    assume "contains sub cs"
    with Cons.IH show ?thesis by auto
  qed
qed

text \<open>
  Claim C7, as amended. \<^verbatim>\<open>parse_helpful_votes\<close> returns the integer of the leftmost
  \<^verbatim>\<open><digits> people found this helpful\<close> of the text, in any letter case and with any
  whitespace after the digits, when this is the first match of the pattern: the
  digits have no digit before them, and no such phrase, with \<^verbatim>\<open>people\<close> or with
  \<^verbatim>\<open>peopl\<close>, lies before them. The integer has at most as many digits as \<^verbatim>\<open>int\<close>
  converts, 4300; with more, the result is that of a text without a match. It is the
  plural only: after digits the singular \<^verbatim>\<open>person\<close> is not accepted. When the text
  has neither \<^verbatim>\<open><digits> people found this helpful\<close> nor
  \<^verbatim>\<open><digits> peopl found this helpful\<close>, the result is 1 if the text contains
  \<^verbatim>\<open>one person found this helpful\<close> in any letter case, and 0 if not. The empty text
  gives 0.
\<close>

theorem parse_helpful_votes_plural:
  "((pre = [] \<or> \<not> isdigit (last pre))
     \<and> \<not> votes_phrase ''people'' pre \<and> \<not> votes_phrase ''peopl'' pre
     \<and> ds \<noteq> [] \<and> list_all isdigit ds \<and> ws \<noteq> [] \<and> list_all isspace ws
     \<and> lower w = ''people found this helpful''
      \<longrightarrow> parse_helpful_votes (pre @ ds @ ws @ w @ post) =
            (if length ds \<le> int_max_str_digits then decimal ds
             else if contains ''one person found this helpful''
                       (lower (pre @ ds @ ws @ w @ post)) then 1 else 0))
   \<and> (\<not> votes_phrase ''people'' text \<and> \<not> votes_phrase ''peopl'' text
      \<longrightarrow> parse_helpful_votes text =
            (if contains ''one person found this helpful'' (lower text) then 1 else 0))
   \<and> parse_helpful_votes [] = 0"
proof (intro conjI impI)
  assume h: "(pre = [] \<or> \<not> isdigit (last pre))
     \<and> \<not> votes_phrase ''people'' pre \<and> \<not> votes_phrase ''peopl'' pre
     \<and> ds \<noteq> [] \<and> list_all isdigit ds \<and> ws \<noteq> [] \<and> list_all isspace ws
     \<and> lower w = ''people found this helpful''"
  let ?t = "pre @ ds @ ws @ w @ post"
  from h have "HELPFUL_RE (ds @ ws @ w @ post) = Some ds"
    unfolding HELPFUL_RE_Some_iff by blast
  then have "re_search HELPFUL_RE (ds @ ws @ w @ post) = Some ds"
    by (rule re_search_hit)
  moreover have "re_search HELPFUL_RE ?t = re_search HELPFUL_RE (ds @ ws @ w @ post)"
  proof (rule re_search_skip_suffixes)
    fix p1 p2 assume p: "pre = p1 @ p2" "p2 \<noteq> []"
    with h have "\<not> isdigit (last p2)" by auto
    with p h show "HELPFUL_RE (p2 @ ds @ ws @ w @ post) = None"
      by (intro HELPFUL_RE_no_earlier [of p2 p1]) simp_all
  qed
  ultimately have found: "re_search HELPFUL_RE ?t = Some ds" by simp
  show "parse_helpful_votes ?t =
      (if length ds \<le> int_max_str_digits then decimal ds
       else if contains ''one person found this helpful'' (lower ?t) then 1 else 0)"
  proof (cases "length ds \<le> int_max_str_digits")
    case True
    with h have "int_of_str ds = Some (decimal ds)"
      by (simp add: int_of_str_def digits_value_def)
    with found h True show ?thesis by (simp add: parse_helpful_votes_def)
  next
    case False
    then have "int_of_str ds = None" by (simp add: int_of_str_def)
    with found h False show ?thesis by (simp add: parse_helpful_votes_def)
  qed
next
  assume "\<not> votes_phrase ''people'' text \<and> \<not> votes_phrase ''peopl'' text"
  then have "re_search HELPFUL_RE text = None"
    by (simp add: re_search_HELPFUL_RE_None)
  then show "parse_helpful_votes text =
      (if contains ''one person found this helpful'' (lower text) then 1 else 0)"
    by (simp add: parse_helpful_votes_def lower_def)
next
  show "parse_helpful_votes [] = 0" by (simp add: parse_helpful_votes_def)
qed

theorem parse_helpful_votes_plural_witness:
  "parse_helpful_votes ''5 stars. 21 people found this helpful'' = 21
   \<and> parse_helpful_votes (replicate 4301 CHR ''7'' @ '' people found this helpful'') = 0
   \<and> parse_helpful_votes ''One person found this helpful'' = 1
   \<and> parse_helpful_votes [] = 0"
proof -
  have short: "\<not> votes_phrase ''people'' ''5 stars. ''" "\<not> votes_phrase ''peopl'' ''5 stars. ''"
    using votes_phrase_length [of "''people''" "''5 stars. ''"]
      votes_phrase_length [of "''peopl''" "''5 stars. ''"] by auto
  have a: "(''5 stars. '' = [] \<or> \<not> isdigit (last ''5 stars. ''))
     \<and> \<not> votes_phrase ''people'' ''5 stars. '' \<and> \<not> votes_phrase ''peopl'' ''5 stars. ''
     \<and> ''21'' \<noteq> [] \<and> list_all isdigit ''21'' \<and> '' '' \<noteq> [] \<and> list_all isspace '' ''
     \<and> lower ''people found this helpful'' = ''people found this helpful''"
    using short by (simp add: isdigit_def isspace_def lower_people)
  have d: "decimal ''21'' = 21" "length ''21'' \<le> int_max_str_digits"
    by (simp_all add: decimal_def digit_value_def int_max_str_digits_def)
  from parse_helpful_votes_plural
    [of "''5 stars. ''" "''21''" "'' ''" "''people found this helpful''" "[]", THEN conjunct1]
    a d
  have first: "parse_helpful_votes ''5 stars. 21 people found this helpful'' = 21" by simp
  let ?long = "replicate 4301 CHR ''7''"
  have empty: "\<not> votes_phrase ''people'' []" "\<not> votes_phrase ''peopl'' []"
    using votes_phrase_length [of "''people''" "[]"] votes_phrase_length [of "''peopl''" "[]"]
    by auto
  have seven: "isdigit CHR ''7''" by (simp add: isdigit_def)
  have b: "(([] :: string) = [] \<or> \<not> isdigit (last []))
     \<and> \<not> votes_phrase ''people'' [] \<and> \<not> votes_phrase ''peopl'' []
     \<and> ?long \<noteq> [] \<and> list_all isdigit ?long \<and> '' '' \<noteq> [] \<and> list_all isspace '' ''
     \<and> lower ''people found this helpful'' = ''people found this helpful''"
    using empty seven by (simp add: list_all_iff isspace_def lower_people)
  have over: "\<not> length ?long \<le> int_max_str_digits"
    by (simp add: int_max_str_digits_def)
  have "CHR ''r'' \<notin> set (lower (?long @ '' people found this helpful''))"
    by (simp add: lower_def lower_char_def)
  then have no_one: "\<not> contains ''one person found this helpful''
      (lower (?long @ '' people found this helpful''))"
    using contains_set [of "''one person found this helpful''"
        "lower (?long @ '' people found this helpful'')"] by auto
  from parse_helpful_votes_plural
    [of "[]" ?long "'' ''" "''people found this helpful''" "[]", THEN conjunct1] b over no_one
  have second: "parse_helpful_votes (?long @ '' people found this helpful'') = 0" by simp
  have "\<forall>c \<in> set ''One person found this helpful''. \<not> isdigit c"
    by (simp add: isdigit_def)
  then have c: "\<not> votes_phrase ''people'' ''One person found this helpful''
      \<and> \<not> votes_phrase ''peopl'' ''One person found this helpful''"
    by (simp add: no_digit_no_votes_phrase)
  have one: "contains ''one person found this helpful'' (lower ''One person found this helpful'')"
    by code_simp
  from parse_helpful_votes_plural
    [of _ _ _ _ _ "''One person found this helpful''", THEN conjunct2, THEN conjunct1] c one
  have third: "parse_helpful_votes ''One person found this helpful'' = 1" by simp
  have fourth: "parse_helpful_votes [] = 0"
    by (rule parse_helpful_votes_plural [THEN conjunct2, THEN conjunct2])
  from first second third fourth show ?thesis by blast
qed

text \<open>After digits the singular is not accepted: the claim's pattern with \<^verbatim>\<open>person\<close>
  gives 0, not the integer.\<close>

theorem parse_helpful_votes_person_counterexample:
  "parse_helpful_votes ''3 person found this helpful'' = 0"
  by code_simp

subsection \<open>The rating pattern\<close>

lemma lower_char_5: "lower_char c = CHR ''5'' \<longleftrightarrow> c = CHR ''5''"
proof
  assume "lower_char c = CHR ''5''"
  then have "(of_char (lower_char c) :: nat) = 53" by simp
  then have "(of_char c :: nat) = of_char CHR ''5''"
    unfolding of_char_lower_char by (simp split: if_splits)
  then show "c = CHR ''5''" by (simp only: of_char_eq_iff)
next
  assume "c = CHR ''5''"
  then show "lower_char c = CHR ''5''" by (simp add: lower_char_def)
qed

lemma lit_i_5: "lit_i ''5'' s = Some r \<longleftrightarrow> s = ''5'' @ r"
proof -
  have l5: "lower_char CHR ''5'' = CHR ''5''" by (simp add: lower_char_5)
  have "lower u = lower ''5'' \<longleftrightarrow> u = ''5''" for u
    by (cases u) (auto simp: lower_def l5 lower_char_5)
  then show ?thesis unfolding lit_i_Some_iff by auto
qed

lemma lower_out_of: "lower ''out of'' = ''out of''"
  by code_simp

lemma rating_tail_Some_iff:
  "rating_tail g s = Some g' \<longleftrightarrow>
     g' = g \<and> (\<exists>ws1 w ws2 post. s = ws1 @ w @ ws2 @ ''5'' @ post \<and>
        ws1 \<noteq> [] \<and> list_all isspace ws1 \<and> lower w = ''out of'' \<and>
        ws2 \<noteq> [] \<and> list_all isspace ws2)"
  (is "?L \<longleftrightarrow> ?R")
proof
  assume ?L
  then obtain ws1 s1 s2 ws2 s3 r where a: "many1 isspace s = Some (ws1, s1)"
    and b: "lit_i ''out of'' s1 = Some s2"
    and c: "many1 isspace s2 = Some (ws2, s3)"
    and d: "lit_i ''5'' s3 = Some r" and g: "g' = g"
    unfolding rating_tail_def by (auto simp: bind_eq_Some_conv)
  from b obtain w where w: "s1 = w @ s2" "lower w = ''out of''"
    unfolding lit_i_Some_iff lower_out_of by blast
  from a c d w g show ?R
    unfolding many1_Some_iff lit_i_5 by auto
next
  assume ?R
  then obtain ws1 w ws2 post where s: "s = ws1 @ w @ ws2 @ ''5'' @ post"
    and ws1: "ws1 \<noteq> []" "list_all isspace ws1" and w: "lower w = ''out of''"
    and ws2: "ws2 \<noteq> []" "list_all isspace ws2" and g: "g' = g"
    by blast
  from w have "w \<noteq> []" and "lower_char (hd w) = CHR ''o''"
    by (cases w; auto simp: lower_def)+
  then have "\<not> isspace (hd w)"
    using isspace_lower_char [of "hd w"] by (simp add: isspace_def)
  with \<open>w \<noteq> []\<close> ws1 s have a: "many1 isspace s = Some (ws1, w @ ws2 @ ''5'' @ post)"
    unfolding many1_Some_iff by simp
  from w have b: "lit_i ''out of'' (w @ ws2 @ ''5'' @ post) = Some (ws2 @ ''5'' @ post)"
    unfolding lit_i_Some_iff lower_out_of by blast
  have "\<not> isspace CHR ''5''" by (simp add: isspace_def)
  with ws2 have c: "many1 isspace (ws2 @ ''5'' @ post) = Some (ws2, ''5'' @ post)"
    unfolding many1_Some_iff by simp
  have d: "lit_i ''5'' (''5'' @ post) = Some post"
    unfolding lit_i_5 by simp
  from a b c d g show ?L
    unfolding rating_tail_def by simp
qed

lemma RATING_RE_Some_iff:
  "RATING_RE s = Some g \<longleftrightarrow>
     rating_number g \<and> (\<exists>ws1 w ws2 post. s = g @ ws1 @ w @ ws2 @ ''5'' @ post \<and>
        ws1 \<noteq> [] \<and> list_all isspace ws1 \<and> lower w = ''out of'' \<and>
        ws2 \<noteq> [] \<and> list_all isspace ws2)"
  (is "?L \<longleftrightarrow> ?R")
proof
  assume l: ?L
  then obtain d s' where s: "s = d # s'" and d: "in_0_5 d"
    by (cases s) (auto split: if_splits)
  from l s d consider
      (frac) p e s'' where "s' = p # e # s''" "p = CHR ''.''" "isdigit e"
        "rating_tail [d, p, e] s'' = Some g"
    | (whole) "rating_tail [d] s' = Some g"
    by (auto split: list.splits option.splits if_splits)
  then show ?R
  proof cases
    case frac
    then have "g = [d, CHR ''.'', e]" by (simp add: rating_tail_Some_iff)
    with frac d s show ?thesis
      unfolding rating_tail_Some_iff rating_number_def by auto
  next
    case whole
    then have "g = [d]" by (simp add: rating_tail_Some_iff)
    with whole d s show ?thesis
      unfolding rating_tail_Some_iff rating_number_def by auto
  qed
next
  assume r: ?R
  then obtain ws1 w ws2 post where s: "s = g @ ws1 @ w @ ws2 @ ''5'' @ post"
    and t: "ws1 \<noteq> []" "list_all isspace ws1" "lower w = ''out of''"
       "ws2 \<noteq> []" "list_all isspace ws2"
    by blast
  define rest where "rest = ws1 @ w @ ws2 @ ''5'' @ post"
  have tail: "rating_tail h rest = Some h" for h
    unfolding rating_tail_Some_iff rest_def using t by blast
  from r consider (whole) d where "g = [d]" "in_0_5 d"
    | (frac) d e where "g = [d, CHR ''.'', e]" "in_0_5 d" "isdigit e"
    unfolding rating_number_def by blast
  then show ?L
  proof cases
    case whole
    have "isspace (hd ws1)" using t by (cases ws1) simp_all
    then have "hd ws1 \<noteq> CHR ''.''" by (auto simp: isspace_def)
    then have "hd rest \<noteq> CHR ''.''" using t by (simp add: rest_def)
    moreover have "rest \<noteq> []" using t by (simp add: rest_def)
    ultimately have "(case rest of p # e # s' \<Rightarrow>
        if p = CHR ''.'' \<and> isdigit e then rating_tail [d, p, e] s' else None | _ \<Rightarrow> None) = None"
      by (cases rest) (auto split: list.splits)
    with whole tail [of "[d]"] show ?thesis
      unfolding s rest_def [symmetric] by simp
  next
    case frac
    with tail [of "[d, CHR ''.'', e]"] show ?thesis
      unfolding s rest_def [symmetric] by simp
  qed
qed

lemma in_0_5_digit: "in_0_5 d \<Longrightarrow> isdigit d \<and> d \<noteq> CHR ''.'' \<and> 0 \<le> digit_value d \<and> digit_value d \<le> 5"
  by (auto simp: in_0_5_def isdigit_def digit_value_def Let_def)

lemma isdigit_value: "isdigit e \<Longrightarrow> 0 \<le> digit_value e \<and> digit_value e \<le> 9"
  by (auto simp: isdigit_def digit_value_def Let_def)

lemma float_of_str_rating_number:
  assumes "rating_number g"
  shows "\<exists>v. float_of_str g = Some v \<and> 0 \<le> v \<and> v \<le> 59 / 10"
proof -
  from assms consider (whole) d where "g = [d]" "in_0_5 d"
    | (frac) d e where "g = [d, CHR ''.'', e]" "in_0_5 d" "isdigit e"
    unfolding rating_number_def by blast
  then show ?thesis
  proof cases
    case whole
    then have "float_of_str g = Some (real_of_int (digit_value d))"
      using in_0_5_digit [of d] by (simp add: float_of_str_def digits_value_def decimal_def)
    moreover have "0 \<le> real_of_int (digit_value d)" "real_of_int (digit_value d) \<le> 59 / 10"
      using in_0_5_digit [of d] whole by simp_all
    ultimately show ?thesis by blast
  next
    case frac
    then have "float_of_str g
        = Some (real_of_int (digit_value d) + real_of_int (digit_value e) / 10)"
      using in_0_5_digit [of d] by (simp add: float_of_str_def digits_value_def decimal_def)
    moreover have "0 \<le> real_of_int (digit_value d) + real_of_int (digit_value e) / 10"
      using in_0_5_digit [of d] isdigit_value [of e] frac by simp
    moreover have "real_of_int (digit_value d) + real_of_int (digit_value e) / 10 \<le> 59 / 10"
    proof -
      have "real_of_int (digit_value d) \<le> 5" "real_of_int (digit_value e) \<le> 9"
        using in_0_5_digit [of d] isdigit_value [of e] frac by simp_all
      then show ?thesis by simp
    qed
    ultimately show ?thesis by blast
  qed
qed

lemma re_search_RATING_RE_None_iff:
  "re_search RATING_RE text = None \<longleftrightarrow> \<not> rating_phrase text"
proof
  assume n: "re_search RATING_RE text = None"
  show "\<not> rating_phrase text"
  proof
    assume "rating_phrase text"
    then obtain pre g ws1 w ws2 post where tx: "text = pre @ g @ ws1 @ w @ ws2 @ ''5'' @ post"
      and r: "rating_number g" "ws1 \<noteq> []" "list_all isspace ws1" "lower w = ''out of''"
        "ws2 \<noteq> []" "list_all isspace ws2"
      unfolding rating_phrase_def by blast
    then have m: "RATING_RE (g @ ws1 @ w @ ws2 @ ''5'' @ post) = Some g"
      unfolding RATING_RE_Some_iff by blast
    have "re_search RATING_RE (pre @ t) \<noteq> None" if "RATING_RE t = Some g" for t
      using that by (induction pre) (auto simp: re_search_hit split: option.splits)
    with m tx n show False by blast
  qed
next
  assume no: "\<not> rating_phrase text"
  show "re_search RATING_RE text = None"
  proof (rule re_search_None)
    fix pre t
    assume tx: "text = pre @ t"
    show "RATING_RE t = None"
    proof (rule ccontr)
      assume "RATING_RE t \<noteq> None"
      then obtain g where "RATING_RE t = Some g" by blast
      with tx have "rating_phrase text"
        unfolding RATING_RE_Some_iff rating_phrase_def by blast
      with no show False by blast
    qed
  qed
qed

text \<open>
  Claim C8, as amended. Whenever \<^verbatim>\<open>parse_rating_score\<close> returns a value, the value lies
  between 0.0 and 5.9 inclusive: it is a digit from 0 to 5 with an optional decimal
  digit. The result is absent exactly when the text has no match of
  \<^verbatim>\<open><digit 0-5>[.<digit>] out of 5\<close>, and so for the empty text.
\<close>

theorem parse_rating_score_range:
  "(parse_rating_score text = Some v \<longrightarrow> 0 \<le> v \<and> v \<le> 59 / 10)
   \<and> (parse_rating_score text = None \<longleftrightarrow> \<not> rating_phrase text)
   \<and> parse_rating_score [] = None"
proof (intro conjI impI)
  assume a: "parse_rating_score text = Some v"
  then obtain g where g: "re_search RATING_RE text = Some g" "float_of_str g = Some v"
    by (auto simp: parse_rating_score_def bind_eq_Some_conv split: if_splits)
  then obtain pre t where "RATING_RE t = Some g"
    using re_search_Some by blast
  then have "rating_number g" by (simp add: RATING_RE_Some_iff)
  with g float_of_str_rating_number [of g] show "0 \<le> v" "v \<le> 59 / 10" by auto
next
  show "parse_rating_score text = None \<longleftrightarrow> \<not> rating_phrase text"
  proof (cases "re_search RATING_RE text")
    case None
    then have "\<not> rating_phrase text" by (simp add: re_search_RATING_RE_None_iff)
    with None show ?thesis by (simp add: parse_rating_score_def)
  next
    case (Some g)
    then have ph: "rating_phrase text"
      using re_search_RATING_RE_None_iff [of "text"] by simp
    then have ne: "text \<noteq> []" by (auto simp: rating_phrase_def rating_number_def)
    from Some obtain pre t where "RATING_RE t = Some g"
      using re_search_Some by blast
    then have "rating_number g" by (simp add: RATING_RE_Some_iff)
    then obtain v where "float_of_str g = Some v"
      using float_of_str_rating_number by blast
    with Some ne ph show ?thesis by (simp add: parse_rating_score_def)
  qed
next
  show "parse_rating_score [] = None" by (simp add: parse_rating_score_def)
qed

theorem parse_rating_score_range_witness:
  "parse_rating_score ''4.0 out of 5 stars'' = Some 4 \<and> (0::real) \<le> 4 \<and> (4::real) \<le> 59 / 10
   \<and> rating_phrase ''4.0 out of 5 stars''"
proof -
  have e: "parse_rating_score ''4.0 out of 5 stars'' = Some 4" by code_simp
  from parse_rating_score_range [of "''4.0 out of 5 stars''" 4] e
  show ?thesis by simp
qed

text \<open>A rating text above the scale: the value returned is 5.9.\<close>

theorem parse_rating_score_counterexample:
  "parse_rating_score ''5.9 out of 5 stars'' = Some (59 / 10) \<and> (5::real) < 59 / 10"
proof
  show "parse_rating_score ''5.9 out of 5 stars'' = Some (59 / 10)" by code_simp
  show "(5::real) < 59 / 10" by simp
qed

section \<open>Properties of the review extractor\<close>

lemma review_images_of_entries: "review_images_of imgs = concat (map image_entry imgs)"
proof (induction imgs)
  case Nil
  then show ?case by simp
next
  case (Cons img imgs)
  have "(let src = str_or (get_attr img ''src'') (get_attr img ''data-src'')
         in if truthy src then [the src] else []) = image_entry img"
    by (cases "get_attr img ''src''"; cases "get_attr img ''data-src''")
       (simp_all add: image_entry_def nonempty_attr_def str_or_def truthy_def)
  with Cons show ?case by (simp add: Let_def split: if_splits)
qed

lemma parse_single_review_images:
  "parse_single_review e blk asin pos = Inr (Some r)
     \<Longrightarrow> reviewImages r = review_images_of (image_tiles blk)"
  by (auto simp: parse_single_review_def Let_def split: sum.splits if_splits)

text \<open>
  Claim C9, as amended. The image list of a review that the extractor returns has, in
  document order, one entry for each image tile that has a non-empty \<^verbatim>\<open>src\<close> or a
  non-empty \<^verbatim>\<open>data-src\<close>: the \<^verbatim>\<open>src\<close> when it is there and not empty, else the
  \<^verbatim>\<open>data-src\<close>. A tile with neither, or with only empty ones, adds no entry.
\<close>

theorem review_images_in_order:
  "parse_single_review e blk asin pos = Inr (Some r)
     \<longrightarrow> reviewImages r = concat (map image_entry (image_tiles blk))"
  using parse_single_review_images [of e blk asin pos r]
  by (simp add: review_images_of_entries)



theorem review_images_in_order_witness:
  "parse_single_review offline gallery_block ''B08N5WRWNW'' 1 =
     Inr (Some \<lparr> productAsin = ''B08N5WRWNW'', ratingScore = None, reviewTitle = [],
                 reviewUrl = [], reviewReaction = ''0 people found this helpful'',
                 reviewedIn = [], reviewDescription = ''Good'', isVerified = False,
                 variant = [], reviewImages = [''a.jpg'', ''c.jpg''], position = 1,
                 helpfulVotes = 0 \<rparr>)
   \<and> concat (map image_entry (image_tiles gallery_block)) = [''a.jpg'', ''c.jpg'']"
proof -
  have r: "parse_single_review offline gallery_block ''B08N5WRWNW'' 1 =
     Inr (Some \<lparr> productAsin = ''B08N5WRWNW'', ratingScore = None, reviewTitle = [],
                 reviewUrl = [], reviewReaction = ''0 people found this helpful'',
                 reviewedIn = [], reviewDescription = ''Good'', isVerified = False,
                 variant = [], reviewImages = [''a.jpg'', ''c.jpg''], position = 1,
                 helpfulVotes = 0 \<rparr>)"
    by code_simp
  from review_images_in_order [THEN mp, OF r] r
  show ?thesis by simp
qed

text \<open>A tile with an empty \<^verbatim>\<open>src\<close> and a \<^verbatim>\<open>data-src\<close>: both attributes are present,
  and the entry is the \<^verbatim>\<open>data-src\<close>, not the \<^verbatim>\<open>src\<close>.\<close>

theorem review_images_empty_src_counterexample:
  "parse_single_review offline lazy_image_block ''B08N5WRWNW'' 1 =
     Inr (Some \<lparr> productAsin = ''B08N5WRWNW'', ratingScore = None, reviewTitle = [],
                 reviewUrl = [], reviewReaction = ''0 people found this helpful'',
                 reviewedIn = [], reviewDescription = ''Good'', isVerified = False,
                 variant = [], reviewImages = [''a.jpg''], position = 1,
                 helpfulVotes = 0 \<rparr>)
   \<and> concat (map image_entry_present (image_tiles lazy_image_block)) = ['''']"
  by code_simp

text \<open>
  Claim C3. The extractor is to return a record whenever the rating parses, also to
  0.0 and with an empty body. On a block with no body whose rating text is
  \<^verbatim>\<open>0.0 out of 5 stars\<close> the rating parses to 0.0, and \<^verbatim>\<open>not rating_score\<close> is true
  of it: the block is discarded.
\<close>

theorem zero_rating_block_discarded:
  "parse_rating_score ''0.0 out of 5 stars'' = Some 0
   \<and> parse_single_review offline zero_rating_block ''B08N5WRWNW'' 1 = Inr None"
  by code_simp

text \<open>
  Claim C2. The resolver is to return the identifier of an \<^verbatim>\<open>ASIN\<close> query parameter.
  \<^verbatim>\<open>urlparse\<close> gives the query without its question mark, and the pattern
  \<^verbatim>\<open>[?&]ASIN=\<close> asks for a character before the name: for the URL
  \<^verbatim>\<open>https://www.amazon.com/review/create-review?ASIN=B08N5WRWNW\<close> nothing is found,
  while the same parameter in second place is.
\<close>

theorem extract_asin_first_query_parameter:
  "extract_asin \<lparr> path = ''/review/create-review'', query = ''ASIN=B08N5WRWNW'' \<rparr> = None
   \<and> extract_asin \<lparr> path = ''/review/create-review'', query = ''ie=UTF8&ASIN=B08N5WRWNW'' \<rparr>
       = Some ''B08N5WRWNW''"
  by code_simp

section \<open>Properties of the page fetcher\<close>





lemma take_upto_1: "j \<le> nat n \<Longrightarrow> take j [1..n] = [1..int j]"
proof (rule nth_equalityI)
  assume j: "j \<le> nat n"
  then show "length (take j [1..n]) = length [1..int j]" by simp
  fix i assume "i < length (take j [1..n])"
  with j have "i < j" "1 + int i \<le> n" "1 + int i \<le> int j" by simp_all
  then show "take j [1..n] ! i = [1..int j] ! i" by simp
qed










section \<open>Properties of the pagination controller\<close>

subsection \<open>Blocks and positions\<close>

lemma parse_single_review_position:
  "parse_single_review e blk asin pos = Inr (Some r) \<Longrightarrow> position r = pos \<and> productAsin r = asin"
  by (auto simp: parse_single_review_def Let_def split: sum.splits if_splits)

text \<open>The position is only written into the record: it decides neither whether a
  block raises, nor whether it is discarded, nor any other field.\<close>

lemma parse_single_review_shift:
  "parse_single_review e blk asin pos =
     (case parse_single_review e blk asin 0 of
        Inl exc \<Rightarrow> Inl exc
      | Inr None \<Rightarrow> Inr None
      | Inr (Some r) \<Rightarrow> Inr (Some (r \<lparr> position := pos \<rparr>)))"
  by (auto simp: parse_single_review_def Let_def split: sum.splits)

lemma emits_iff: "emits e asin blk \<longleftrightarrow> (\<exists>r. parse_single_review e blk asin pos = Inr (Some r))"
  by (subst parse_single_review_shift [of e blk asin pos])
     (simp add: emits_def split: sum.splits option.splits)


lemma parse_reviews_from_soup_skip:
  "\<not> emits e asin blk \<Longrightarrow>
     parse_reviews_from_soup e (blk # blocks) asin pos = parse_reviews_from_soup e blocks asin pos"
  using emits_iff [of e asin blk pos] by (simp split: sum.splits option.splits)

lemma parse_reviews_from_soup_emit:
  "emits e asin blk \<Longrightarrow>
     \<exists>r. parse_single_review e blk asin pos = Inr (Some r) \<and>
       parse_reviews_from_soup e (blk # blocks) asin pos
         = r # parse_reviews_from_soup e blocks asin (pos + 1)"
  using emits_iff [of e asin blk pos] by auto

lemma parse_reviews_from_soup_append:
  "parse_reviews_from_soup e (bs1 @ bs2) asin pos =
     parse_reviews_from_soup e bs1 asin pos
       @ parse_reviews_from_soup e bs2 asin
           (pos + int (length (parse_reviews_from_soup e bs1 asin pos)))"
proof (induction bs1 arbitrary: pos)
  case Nil
  then show ?case by simp
next
  case (Cons blk bs1)
  show ?case
  proof (cases "emits e asin blk")
    case True
    from parse_reviews_from_soup_emit [OF True, of pos "bs1 @ bs2"]
      parse_reviews_from_soup_emit [OF True, of pos bs1] Cons [of "pos + 1"]
    show ?thesis by (auto simp: algebra_simps)
  next
    case False
    from parse_reviews_from_soup_skip [OF False, of "bs1 @ bs2" pos]
      parse_reviews_from_soup_skip [OF False, of bs1 pos] Cons [of pos]
    show ?thesis by simp
  qed
qed

text \<open>The records of a list of blocks are those of the blocks that give one, in
  order, numbered from the starting position.\<close>

lemma parse_reviews_from_soup_emitted:
  "length (parse_reviews_from_soup e bs asin pos) = length (filter (emits e asin) bs)
   \<and> (\<forall>i < length (filter (emits e asin) bs).
        parse_single_review e (filter (emits e asin) bs ! i) asin (pos + int i)
          = Inr (Some (parse_reviews_from_soup e bs asin pos ! i)))"
proof (induction bs arbitrary: pos)
  case Nil
  then show ?case by simp
next
  case (Cons blk bs)
  show ?case
  proof (cases "emits e asin blk")
    case False
    from parse_reviews_from_soup_skip [OF False, of bs pos] False Cons [of pos]
    show ?thesis by simp
  next
    case True
    from parse_reviews_from_soup_emit [OF True, of pos bs] obtain r where
      r: "parse_single_review e blk asin pos = Inr (Some r)"
        "parse_reviews_from_soup e (blk # bs) asin pos
           = r # parse_reviews_from_soup e bs asin (pos + 1)"
      by blast
    let ?em = "filter (emits e asin) bs"
    from Cons [of "pos + 1"] have
      len: "length (parse_reviews_from_soup e bs asin (pos + 1)) = length ?em"
      and nth: "\<And>i. i < length ?em \<Longrightarrow>
        parse_single_review e (?em ! i) asin (pos + 1 + int i)
          = Inr (Some (parse_reviews_from_soup e bs asin (pos + 1) ! i))"
      by simp_all
    have "parse_single_review e (filter (emits e asin) (blk # bs) ! i) asin (pos + int i)
          = Inr (Some (parse_reviews_from_soup e (blk # bs) asin pos ! i))"
      if "i < length (filter (emits e asin) (blk # bs))" for i
    proof (cases i)
      case 0
      with True r show ?thesis by simp
    next
      case (Suc j)
      with that True have "j < length ?em" by simp
      from nth [OF this] have "parse_single_review e (?em ! j) asin (pos + int (Suc j))
          = Inr (Some (parse_reviews_from_soup e bs asin (pos + 1) ! j))"
        by (simp add: algebra_simps)
      with Suc True r(2) show ?thesis by simp
    qed
    moreover have "length (parse_reviews_from_soup e (blk # bs) asin pos)
        = length (filter (emits e asin) (blk # bs))"
      using True r(2) len by simp
    ultimately show ?thesis by blast
  qed
qed

lemma parse_reviews_from_soup_positions:
  "map position (parse_reviews_from_soup e blocks asin pos)
     = [pos..pos + int (length (parse_reviews_from_soup e blocks asin pos)) - 1]"
proof (induction blocks arbitrary: pos)
  case Nil
  then show ?case by simp
next
  case (Cons blk blocks)
  show ?case
  proof (cases "emits e asin blk")
    case False
    from parse_reviews_from_soup_skip [OF False, of blocks pos] Cons [of pos]
    show ?thesis by simp
  next
    case True
    from parse_reviews_from_soup_emit [OF True, of pos blocks] obtain r where
      r: "parse_single_review e blk asin pos = Inr (Some r)"
        "parse_reviews_from_soup e (blk # blocks) asin pos
           = r # parse_reviews_from_soup e blocks asin (pos + 1)"
      by blast
    let ?rest = "parse_reviews_from_soup e blocks asin (pos + 1)"
    from r(1) have p: "position r = pos"
      using parse_single_review_position by blast
    have "[pos..pos + int (length (r # ?rest)) - 1]
        = pos # [pos + 1..pos + 1 + int (length ?rest) - 1]"
      by (subst upto_rec1) (simp_all add: algebra_simps)
    with r(2) p Cons [of "pos + 1"] show ?thesis by simp
  qed
qed

lemma positions_append:
  assumes "map position collected = [1..int (length collected)]"
    and "map position reviews
           = [int (length collected) + 1..int (length collected) + 1 + int (length reviews) - 1]"
  shows "map position (collected @ reviews) = [1..int (length (collected @ reviews))]"
proof (cases reviews)
  case Nil
  with assms show ?thesis by simp
next
  case (Cons r rs)
  have "[1..int (length (collected @ reviews))]
      = [1..int (length collected) + 1 - 1]
        @ [int (length collected) + 1..int (length (collected @ reviews))]"
    using Cons by (intro upto_split1) simp_all
  with assms show ?thesis by (simp add: algebra_simps)
qed

lemma positions_extend:
  assumes "map position collected = [1..int (length collected)]"
  shows "map position
           (collected @ parse_reviews_from_soup e blocks asin (int (length collected) + 1))
         = [1..int (length
              (collected @ parse_reviews_from_soup e blocks asin (int (length collected) + 1)))]"
  using assms by (rule positions_append) (rule parse_reviews_from_soup_positions)

lemma positions_take:
  assumes "map position xs = [1..int (length xs)]"
  shows "map position (take k xs) = [1..int (length (take k xs))]"
proof (cases "k \<le> length xs")
  case True
  have "map position (take k xs) = take k [1..int (length xs)]"
    using assms by (metis take_map)
  also have "\<dots> = [1..int k]" using True by (intro take_upto_1) simp
  finally show ?thesis using True by (simp add: min_def)
next
  case False
  with assms show ?thesis by simp
qed

lemma strict_sorted_upto: "sorted_wrt (<) [i..j]"
  by (simp add: strict_sorted_iff)

subsection \<open>The loop\<close>

text \<open>One turn of the loop, case by case.\<close>

lemma scrape_loop_cases:
  assumes "scrape_loop e scr asin max_reviews collected page tr = (res, tr')"
  obtains
    (full) "\<not> int (length collected) < max_reviews" "res = Inr collected" "tr' = tr"
  | (fetch_raised) exc where "int (length collected) < max_reviews"
      "fetch_html_with_retries e scr (build_review_page_url asin page) tr = (Inl exc, tr')"
      "res = Inl exc"
  | (fetch_failed) "int (length collected) < max_reviews"
      "fetch_html_with_retries e scr (build_review_page_url asin page) tr = (Inr None, tr')"
      "res = Inr collected"
  | (empty_html) "int (length collected) < max_reviews"
      "fetch_html_with_retries e scr (build_review_page_url asin page) tr = (Inr (Some []), tr')"
      "res = Inr collected"
  | (no_reviews) html where "int (length collected) < max_reviews"
      "fetch_html_with_retries e scr (build_review_page_url asin page) tr
         = (Inr (Some html), tr')"
      "html \<noteq> []"
      "parse_reviews_from_soup e (select_reviews e html) asin (int (length collected) + 1) = []"
      "res = Inr collected"
  | (enough) html reviews where "int (length collected) < max_reviews"
      "fetch_html_with_retries e scr (build_review_page_url asin page) tr
         = (Inr (Some html), tr')"
      "html \<noteq> []"
      "reviews = parse_reviews_from_soup e (select_reviews e html) asin (int (length collected) + 1)"
      "reviews \<noteq> []" "max_reviews \<le> int (length (collected @ reviews))"
      "res = Inr (collected @ reviews)"
  | (pause_raised) html reviews exc where "int (length collected) < max_reviews"
      "fetch_html_with_retries e scr (build_review_page_url asin page) tr
         = (Inr (Some html), tr')"
      "html \<noteq> []"
      "reviews = parse_reviews_from_soup e (select_reviews e html) asin (int (length collected) + 1)"
      "reviews \<noteq> []" "\<not> max_reviews \<le> int (length (collected @ reviews))"
      "time_sleep e (sleep_between_requests scr) = Some exc"
      "res = Inl exc"
  | (next_page) html tr1 reviews where "int (length collected) < max_reviews"
      "fetch_html_with_retries e scr (build_review_page_url asin page) tr
         = (Inr (Some html), tr1)"
      "html \<noteq> []"
      "reviews = parse_reviews_from_soup e (select_reviews e html) asin (int (length collected) + 1)"
      "reviews \<noteq> []" "\<not> max_reviews \<le> int (length (collected @ reviews))"
      "time_sleep e (sleep_between_requests scr) = None"
      "scrape_loop e scr asin max_reviews (collected @ reviews) (page + 1)
         (tr1 @ [Sleep (sleep_between_requests scr)]) = (res, tr')"
proof (cases "int (length collected) < max_reviews")
  case False
  with assms full show thesis by (subst (asm) scrape_loop.simps) simp
next
  case lt: True
  let ?url = "build_review_page_url asin page"
  obtain fr tr1 where fetch: "fetch_html_with_retries e scr ?url tr = (fr, tr1)"
    by (cases "fetch_html_with_retries e scr ?url tr")
  show thesis
  proof (cases fr)
    case (Inl exc)
    with assms lt fetch have "res = Inl exc" "tr' = tr1"
      by (subst (asm) scrape_loop.simps, simp)+
    with lt fetch Inl fetch_raised show thesis by simp
  next
    case (Inr v)
    show thesis
    proof (cases v)
      case None
      with assms lt fetch Inr have "res = Inr collected" "tr' = tr1"
        by (subst (asm) scrape_loop.simps, simp)+
      with lt fetch Inr None fetch_failed show thesis by simp
    next
      case (Some html)
      let ?reviews = "parse_reviews_from_soup e (select_reviews e html) asin
          (int (length collected) + 1)"
      note f = fetch [unfolded Inr Some]
      show thesis
      proof (cases "html = []")
        case True
        with assms lt f have "res = Inr collected" "tr' = tr1"
          by (subst (asm) scrape_loop.simps, simp)+
        with lt f True empty_html show thesis by simp
      next
        case ne: False
        show thesis
        proof (cases "?reviews = []")
          case True
          with assms lt f ne have "res = Inr collected" "tr' = tr1"
            by (subst (asm) scrape_loop.simps, simp)+
          with lt f ne True no_reviews [of html] show thesis by simp
        next
          case some: False
          show thesis
          proof (cases "max_reviews \<le> int (length (collected @ ?reviews))")
            case True
            with assms lt f ne some have "res = Inr (collected @ ?reviews)" "tr' = tr1"
              by (subst (asm) scrape_loop.simps, simp add: Let_def)+
            with lt f ne some True enough [of html ?reviews] show thesis by simp
          next
            case more: False
            show thesis
            proof (cases "time_sleep e (sleep_between_requests scr)")
              case (Some exc)
              with assms lt f ne some more have "res = Inl exc" "tr' = tr1"
                by (subst (asm) scrape_loop.simps, simp add: Let_def sleep_def)+
              with lt f ne some more Some pause_raised [of html ?reviews exc]
              show thesis by simp
            next
              case None
              with assms lt f ne some more have
                "scrape_loop e scr asin max_reviews (collected @ ?reviews) (page + 1)
                   (tr1 @ [Sleep (sleep_between_requests scr)]) = (res, tr')"
                by (subst (asm) scrape_loop.simps) (simp add: Let_def sleep_def)
              with lt f ne some more None next_page [of html tr1 ?reviews]
              show thesis by simp
            qed
          qed
        qed
      qed
    qed
  qed
qed

text \<open>The hypotheses of the induction rule of the loop, from those of the last case.\<close>

lemma sleep_returns:
  "time_sleep e secs = None \<Longrightarrow> sleep e secs tr = Inr (tr @ [Sleep secs])"
  by (simp add: sleep_def)

lemma scrape_loop_positions:
  "scrape_loop e scr asin max_reviews collected page tr = (Inr res, tr')
     \<Longrightarrow> map position collected = [1..int (length collected)]
     \<Longrightarrow> map position res = [1..int (length res)]"
proof (induction e scr asin max_reviews collected page tr rule: scrape_loop.induct)
  case (1 e scr asin max_reviews collected page tr)
  from "1.prems"(1) show ?case
  proof (cases rule: scrape_loop_cases)
    case (enough html reviews)
    with positions_extend [OF "1.prems"(2)] show ?thesis by simp
  next
    case (next_page html tr1 reviews)
    have "map position (collected @ reviews) = [1..int (length (collected @ reviews))]"
      unfolding next_page(4) using "1.prems"(2) by (rule positions_extend)
    with next_page(8) "1.IH" [OF next_page(1) refl next_page(2) [symmetric] refl refl
        next_page(3) next_page(4) next_page(5) next_page(6) sleep_returns [OF next_page(7)]]
    show ?thesis by simp
  qed (use "1.prems"(2) in simp_all)
qed

text \<open>What the loop returns is what it had, and then the records of the blocks of
  the pages it fetched from the current one on, numbered on from there.\<close>

lemma scrape_loop_pages:
  "scrape_loop e scr asin max_reviews collected page tr = (Inr res, tr')
     \<Longrightarrow> \<exists>htmls. fetched_pages e scr asin page tr htmls
           \<and> res = collected @ parse_reviews_from_soup e
                 (concat (map (select_reviews e) htmls)) asin (int (length collected) + 1)"
proof (induction e scr asin max_reviews collected page tr rule: scrape_loop.induct)
  case (1 e scr asin max_reviews collected page tr)
  let ?P = "\<lambda>htmls. fetched_pages e scr asin page tr htmls
           \<and> res = collected @ parse_reviews_from_soup e
                 (concat (map (select_reviews e) htmls)) asin (int (length collected) + 1)"
  from "1.prems"(1) show ?case
  proof (cases rule: scrape_loop_cases)
    case full
    then have "?P []" by simp
    then show ?thesis ..
  next
    case (fetch_raised exc)
    then show ?thesis by simp
  next
    case fetch_failed
    then have "?P []" by simp
    then show ?thesis ..
  next
    case empty_html
    then have "?P []" by simp
    then show ?thesis ..
  next
    case (no_reviews html)
    then have "?P [html]" by simp
    then show ?thesis ..
  next
    case (enough html reviews)
    then have "?P [html]" by simp
    then show ?thesis ..
  next
    case (pause_raised html reviews exc)
    then show ?thesis by simp
  next
    case (next_page html tr1 reviews)
    let ?tr2 = "tr1 @ [Sleep (sleep_between_requests scr)]"
    from "1.IH" [OF next_page(1) refl next_page(2) [symmetric] refl refl
        next_page(3) next_page(4) next_page(5) next_page(6) sleep_returns [OF next_page(7)]
        next_page(8)]
    obtain htmls where h: "fetched_pages e scr asin (page + 1) ?tr2 htmls"
      "res = (collected @ reviews) @ parse_reviews_from_soup e
         (concat (map (select_reviews e) htmls)) asin (int (length (collected @ reviews)) + 1)"
      by blast
    have "fetched_pages e scr asin page tr (html # htmls)"
      using next_page(2) h(1) sleep_returns [OF next_page(7), of tr1] by simp
    moreover have "res = collected @ parse_reviews_from_soup e
        (concat (map (select_reviews e) (html # htmls))) asin (int (length collected) + 1)"
      using h(2) next_page(4) by (simp add: parse_reviews_from_soup_append algebra_simps)
    ultimately have "?P (html # htmls)" by (rule conjI)
    then show ?thesis ..
  qed
qed

subsection \<open>The whole scrape\<close>

lemma scrape_loop_idle:
  "\<not> int (length collected) < max_reviews
     \<Longrightarrow> scrape_loop e scr asin max_reviews collected page tr = (Inr collected, tr)"
  by (subst scrape_loop.simps) simp

lemma slice_to_take:
  "scrape_loop e scr asin max_reviews [] page tr = (Inr collected, tr')
     \<Longrightarrow> slice_to max_reviews collected = take (nat max_reviews) collected"
  by (cases "0 \<le> max_reviews") (simp_all add: slice_to_def scrape_loop_idle)


lemma asin_after_length: "asin_after prefix s = Some a \<Longrightarrow> length a = 10"
  by (auto simp: asin_after_def exactly_def bind_eq_Some_conv split: if_splits)

lemma asin_param_length: "asin_param s = Some a \<Longrightarrow> length a = 10"
  by (cases s) (auto simp: asin_after_length split: if_splits)

lemma extract_asin_length:
  assumes "extract_asin parsed = Some a"
  shows "length a = 10"
proof -
  from assms consider
      (re) pre where "re_search (asin_after pre) (path parsed) = Some a"
    | (param) "re_search asin_param (query parsed) = Some a"
    | (segment) segs where "find (\<lambda>seg. length seg = 10 \<and> isalnum seg) segs = Some a"
    by (auto simp: extract_asin_def Let_def split: option.splits)
  then show ?thesis
  proof cases
    case re
    then show ?thesis using re_search_Some asin_after_length by blast
  next
    case param
    then show ?thesis using re_search_Some asin_param_length by blast
  next
    case segment
    then show ?thesis by (auto simp: find_Some_iff)
  qed
qed

text \<open>The scrape, once the identifier is known.\<close>

lemma scrape_product_reviews_resolved:
  assumes "urlparse e url = Inr parsed" and "extract_asin parsed = Some asin"
  shows "scrape_product_reviews e scr url max_reviews tr =
           (case scrape_loop e scr asin max_reviews [] 1 tr of
              (Inl exc, tr1) \<Rightarrow> (Inl exc, tr1)
            | (Inr collected, tr1) \<Rightarrow> (Inr (slice_to max_reviews collected), tr1))"
proof -
  from assms(2) have "asin \<noteq> []" using extract_asin_length by fastforce
  with assms show ?thesis by (simp add: scrape_product_reviews_def)
qed

lemma scrape_product_reviews_Inr:
  assumes "scrape_product_reviews e scr url max_reviews tr = (Inr rs, tr')"
  obtains parsed asin collected where "urlparse e url = Inr parsed"
    "extract_asin parsed = Some asin"
    "scrape_loop e scr asin max_reviews [] 1 tr = (Inr collected, tr')"
    "rs = take (nat max_reviews) collected"
proof -
  from assms obtain parsed asin where a: "urlparse e url = Inr parsed"
    "extract_asin parsed = Some asin"
    by (auto simp: scrape_product_reviews_def split: sum.splits option.splits if_splits)
  obtain lr tr1 where l: "scrape_loop e scr asin max_reviews [] 1 tr = (lr, tr1)"
    by (cases "scrape_loop e scr asin max_reviews [] 1 tr")
  with a assms obtain collected where c: "lr = Inr collected"
    "rs = slice_to max_reviews collected" "tr1 = tr'"
    by (cases lr) (simp_all add: scrape_product_reviews_resolved)
  with l slice_to_take [of e scr asin max_reviews 1 tr collected tr'] a that
  show thesis by simp
qed


lemma scrape_positions:
  assumes "scrape_product_reviews e scr url max_reviews tr = (Inr rs, tr')"
  shows "map position rs = [1..int (length rs)]"
proof -
  from assms obtain parsed asin collected where
    l: "scrape_loop e scr asin max_reviews [] 1 tr = (Inr collected, tr')"
    and rs: "rs = take (nat max_reviews) collected"
    by (rule scrape_product_reviews_Inr)
  from l have "map position collected = [1..int (length collected)]"
    by (rule scrape_loop_positions) simp
  then show ?thesis unfolding rs by (rule positions_take)
qed

text \<open>
  Claim C6. The positions of the records that a scrape returns are 1, 2, 3, ... in
  the order of the records: they start at 1, each is one more than the one before,
  also from the last record of a page to the first of the next, so they are strictly
  increasing and no two are equal. The records are in the order of appearance: the
  scrape has fetched pages 1, 2, ... one after the other, and of all their blocks,
  page after page and each page in document order, those that give a record are
  numbered 1, 2, 3, ...; the records returned are the records of the first
  \<^verbatim>\<open>max_reviews\<close> of these blocks, each with its number as position.
\<close>

theorem positions_count_from_one:
  "scrape_product_reviews e scr url max_reviews tr = (Inr rs, tr') \<longrightarrow>
     map position rs = [1..int (length rs)]
     \<and> sorted_wrt (<) (map position rs) \<and> distinct (map position rs)
     \<and> (\<exists>parsed asin htmls.
          urlparse e url = Inr parsed \<and> extract_asin parsed = Some asin
          \<and> fetched_pages e scr asin 1 tr htmls
          \<and> length rs = min (nat max_reviews)
               (length (filter (emits e asin) (concat (map (select_reviews e) htmls))))
          \<and> (\<forall>i < length rs.
               parse_single_review e
                 (filter (emits e asin) (concat (map (select_reviews e) htmls)) ! i)
                 asin (1 + int i) = Inr (Some (rs ! i))))"
proof
  assume run: "scrape_product_reviews e scr url max_reviews tr = (Inr rs, tr')"
  then have p: "map position rs = [1..int (length rs)]" by (rule scrape_positions)
  from run obtain parsed asin collected where a: "urlparse e url = Inr parsed"
    "extract_asin parsed = Some asin"
    and l: "scrape_loop e scr asin max_reviews [] 1 tr = (Inr collected, tr')"
    and rs: "rs = take (nat max_reviews) collected"
    by (rule scrape_product_reviews_Inr)
  from scrape_loop_pages [OF l] obtain htmls where h: "fetched_pages e scr asin 1 tr htmls"
    and c: "collected = parse_reviews_from_soup e (concat (map (select_reviews e) htmls)) asin 1"
    by auto
  let ?em = "filter (emits e asin) (concat (map (select_reviews e) htmls))"
  from parse_reviews_from_soup_emitted [of e "concat (map (select_reviews e) htmls)" asin 1] c
  have len: "length collected = length ?em"
    and nth: "\<And>i. i < length ?em \<Longrightarrow>
      parse_single_review e (?em ! i) asin (1 + int i) = Inr (Some (collected ! i))"
    by simp_all
  from rs len have n: "length rs = min (nat max_reviews) (length ?em)"
    by (simp add: min.commute)
  have each: "\<forall>i < length rs.
      parse_single_review e (?em ! i) asin (1 + int i) = Inr (Some (rs ! i))"
  proof (intro allI impI)
    fix i assume "i < length rs"
    with n rs have "i < length ?em" "rs ! i = collected ! i" by simp_all
    with nth [of i] show "parse_single_review e (?em ! i) asin (1 + int i) = Inr (Some (rs ! i))"
      by simp
  qed
  from a h n each have "\<exists>parsed asin htmls.
          urlparse e url = Inr parsed \<and> extract_asin parsed = Some asin
          \<and> fetched_pages e scr asin 1 tr htmls
          \<and> length rs = min (nat max_reviews)
               (length (filter (emits e asin) (concat (map (select_reviews e) htmls))))
          \<and> (\<forall>i < length rs.
               parse_single_review e
                 (filter (emits e asin) (concat (map (select_reviews e) htmls)) ! i)
                 asin (1 + int i) = Inr (Some (rs ! i)))"
    by blast
  moreover from p have "sorted_wrt (<) (map position rs)" "distinct (map position rs)"
    by (simp_all add: strict_sorted_upto)
  ultimately show "map position rs = [1..int (length rs)]
     \<and> sorted_wrt (<) (map position rs) \<and> distinct (map position rs)
     \<and> (\<exists>parsed asin htmls.
          urlparse e url = Inr parsed \<and> extract_asin parsed = Some asin
          \<and> fetched_pages e scr asin 1 tr htmls
          \<and> length rs = min (nat max_reviews)
               (length (filter (emits e asin) (concat (map (select_reviews e) htmls))))
          \<and> (\<forall>i < length rs.
               parse_single_review e
                 (filter (emits e asin) (concat (map (select_reviews e) htmls)) ! i)
                 asin (1 + int i) = Inr (Some (rs ! i))))"
    using p by blast
qed

lemma scrape_two_pages:
  "scrape_product_reviews two_pages default_scraper ''https://www.amazon.com/dp/B08N5WRWNW'' 6 []
     = (Inr [a_review ''one'' 1, a_review ''two'' 2, a_review ''three'' 3, a_review ''four'' 4,
             a_review ''five'' 5, a_review ''six'' 6],
        [Get page_1_url, Sleep 1, Get page_2_url])"
  by code_simp

theorem positions_count_from_one_witness:
  "scrape_product_reviews two_pages default_scraper ''https://www.amazon.com/dp/B08N5WRWNW'' 6 []
     = (Inr [a_review ''one'' 1, a_review ''two'' 2, a_review ''three'' 3, a_review ''four'' 4,
             a_review ''five'' 5, a_review ''six'' 6],
        [Get page_1_url, Sleep 1, Get page_2_url])
   \<and> map position [a_review ''one'' 1, a_review ''two'' 2, a_review ''three'' 3,
        a_review ''four'' 4, a_review ''five'' 5, a_review ''six'' 6] = [1, 2, 3, 4, 5, 6]
   \<and> sorted_wrt (<) (map position [a_review ''one'' 1, a_review ''two'' 2,
        a_review ''three'' 3, a_review ''four'' 4, a_review ''five'' 5, a_review ''six'' 6])
   \<and> distinct (map position [a_review ''one'' 1, a_review ''two'' 2,
        a_review ''three'' 3, a_review ''four'' 4, a_review ''five'' 5, a_review ''six'' 6])
   \<and> fetched_pages two_pages default_scraper ''B08N5WRWNW'' 1 [] [''page 1'', ''page 2'']
   \<and> filter (emits two_pages ''B08N5WRWNW'')
         (concat (map (select_reviews two_pages) [''page 1'', ''page 2'']))
       = [review_block ''one'', review_block ''two'', review_block ''three'',
          review_block ''four'', review_block ''five'', review_block ''six'',
          review_block ''seven'', review_block ''eight'']"
proof -
  let ?rs = "[a_review ''one'' 1, a_review ''two'' 2, a_review ''three'' 3,
        a_review ''four'' 4, a_review ''five'' 5, a_review ''six'' 6]"
  note t = positions_count_from_one [THEN mp, OF scrape_two_pages]
  have p: "map position ?rs = [1, 2, 3, 4, 5, 6]"
    by (simp add: a_review_def)
  from t have s: "sorted_wrt (<) (map position ?rs)" by (rule conjunct2 [THEN conjunct1])
  from t have d: "distinct (map position ?rs)"
    by (rule conjunct2 [THEN conjunct2, THEN conjunct1])
  have f: "fetched_pages two_pages default_scraper ''B08N5WRWNW'' 1 [] [''page 1'', ''page 2'']"
    by code_simp
  have g: "filter (emits two_pages ''B08N5WRWNW'')
         (concat (map (select_reviews two_pages) [''page 1'', ''page 2'']))
       = [review_block ''one'', review_block ''two'', review_block ''three'',
          review_block ''four'', review_block ''five'', review_block ''six'',
          review_block ''seven'', review_block ''eight'']"
    by code_simp
  show ?thesis
    by (rule conjI [OF scrape_two_pages conjI [OF p conjI [OF s conjI [OF d conjI [OF f g]]]]])
qed

subsection \<open>Errors\<close>


lemma scrape_loop_next_page:
  assumes "int (length collected) < max_reviews"
    and "fetch_html_with_retries e scr (build_review_page_url asin page) tr
           = (Inr (Some html), tr1)"
    and "html \<noteq> []"
    and "parse_reviews_from_soup e (select_reviews e html) asin (int (length collected) + 1)
           = reviews"
    and "reviews \<noteq> []"
    and "int (length (collected @ reviews)) < max_reviews"
    and "time_sleep e (sleep_between_requests scr) = None"
  shows "scrape_loop e scr asin max_reviews collected page tr
       = scrape_loop e scr asin max_reviews (collected @ reviews) (page + 1)
           (tr1 @ [Sleep (sleep_between_requests scr)])"
  using assms by (subst scrape_loop.simps) (simp add: Let_def sleep_def)

lemma scrape_loop_enough:
  assumes "int (length collected) < max_reviews"
    and "fetch_html_with_retries e scr (build_review_page_url asin page) tr
           = (Inr (Some html), tr1)"
    and "html \<noteq> []"
    and "parse_reviews_from_soup e (select_reviews e html) asin (int (length collected) + 1)
           = reviews"
    and "reviews \<noteq> []"
    and "max_reviews \<le> int (length (collected @ reviews))"
  shows "scrape_loop e scr asin max_reviews collected page tr = (Inr (collected @ reviews), tr1)"
  using assms by (subst scrape_loop.simps) (simp add: Let_def)






text \<open>
  Claim C1. When the identifier resolves, page 1 is fetched and gives 5 records, the
  pause before the next page returns, and page 2 is fetched and gives 3, a scrape
  with \<^verbatim>\<open>max_reviews = 6\<close> returns exactly 6 records, the first 6 of the 8, with
  positions 1 to 6; the history ends with the fetch of page 2, so nothing is
  requested or waited for after it. In general the records returned are the first
  \<^verbatim>\<open>max_reviews\<close> of those the loop collected, all of them when there are fewer.
\<close>

theorem scrape_two_pages_max_6:
  "(urlparse e url = Inr parsed \<and> extract_asin parsed = Some asin
     \<and> fetch_html_with_retries e scr (build_review_page_url asin 1) tr
         = (Inr (Some html1), tr1)
     \<and> html1 \<noteq> []
     \<and> length (parse_reviews_from_soup e (select_reviews e html1) asin 1) = 5
     \<and> time_sleep e (sleep_between_requests scr) = None
     \<and> fetch_html_with_retries e scr (build_review_page_url asin 2)
          (tr1 @ [Sleep (sleep_between_requests scr)]) = (Inr (Some html2), tr2)
     \<and> html2 \<noteq> []
     \<and> length (parse_reviews_from_soup e (select_reviews e html2) asin 6) = 3
    \<longrightarrow> (\<exists>rs. scrape_product_reviews e scr url 6 tr = (Inr rs, tr2)
           \<and> length rs = 6
           \<and> map position rs = [1, 2, 3, 4, 5, 6]
           \<and> rs = take 6 (parse_reviews_from_soup e (select_reviews e html1) asin 1
                          @ parse_reviews_from_soup e (select_reviews e html2) asin 6)))
   \<and> (scrape_product_reviews e scr url max_reviews tr = (Inr rs', tr')
    \<longrightarrow> (\<exists>parsed' asin' collected.
           urlparse e url = Inr parsed' \<and> extract_asin parsed' = Some asin'
           \<and> scrape_loop e scr asin' max_reviews [] 1 tr = (Inr collected, tr')
           \<and> rs' = take (nat max_reviews) collected
           \<and> length rs' = min (nat max_reviews) (length collected)))"
proof -
  have c1: "urlparse e url = Inr parsed \<and> extract_asin parsed = Some asin
     \<and> fetch_html_with_retries e scr (build_review_page_url asin 1) tr
         = (Inr (Some html1), tr1)
     \<and> html1 \<noteq> []
     \<and> length (parse_reviews_from_soup e (select_reviews e html1) asin 1) = 5
     \<and> time_sleep e (sleep_between_requests scr) = None
     \<and> fetch_html_with_retries e scr (build_review_page_url asin 2)
          (tr1 @ [Sleep (sleep_between_requests scr)]) = (Inr (Some html2), tr2)
     \<and> html2 \<noteq> []
     \<and> length (parse_reviews_from_soup e (select_reviews e html2) asin 6) = 3
    \<longrightarrow> (\<exists>rs. scrape_product_reviews e scr url 6 tr = (Inr rs, tr2)
           \<and> length rs = 6
           \<and> map position rs = [1, 2, 3, 4, 5, 6]
           \<and> rs = take 6 (parse_reviews_from_soup e (select_reviews e html1) asin 1
                          @ parse_reviews_from_soup e (select_reviews e html2) asin 6))"
  proof
    let ?p1 = "parse_reviews_from_soup e (select_reviews e html1) asin 1"
    let ?p2 = "parse_reviews_from_soup e (select_reviews e html2) asin 6"
    let ?tr1 = "tr1 @ [Sleep (sleep_between_requests scr)]"
    assume a: "urlparse e url = Inr parsed \<and> extract_asin parsed = Some asin
     \<and> fetch_html_with_retries e scr (build_review_page_url asin 1) tr
         = (Inr (Some html1), tr1)
     \<and> html1 \<noteq> []
     \<and> length ?p1 = 5
     \<and> time_sleep e (sleep_between_requests scr) = None
     \<and> fetch_html_with_retries e scr (build_review_page_url asin 2) ?tr1
         = (Inr (Some html2), tr2)
     \<and> html2 \<noteq> []
     \<and> length ?p2 = 3"
    then have ne: "?p1 \<noteq> []" "?p2 \<noteq> []" by auto
    have "scrape_loop e scr asin 6 [] 1 tr = scrape_loop e scr asin 6 ([] @ ?p1) (1 + 1) ?tr1"
      using a ne by (intro scrape_loop_next_page [where html = html1]) simp_all
    then have "scrape_loop e scr asin 6 [] 1 tr = scrape_loop e scr asin 6 ?p1 2 ?tr1"
      by (simp only: append_Nil one_add_one)
    also have "\<dots> = (Inr (?p1 @ ?p2), tr2)"
      using a ne by (intro scrape_loop_enough [where html = html2]) simp_all
    finally have loop: "scrape_loop e scr asin 6 [] 1 tr = (Inr (?p1 @ ?p2), tr2)" .
    with a have res: "scrape_product_reviews e scr url 6 tr = (Inr (take 6 (?p1 @ ?p2)), tr2)"
      by (simp add: scrape_product_reviews_resolved slice_to_def)
    have len: "length (take 6 (?p1 @ ?p2)) = 6" using a by simp
    have "map position (take 6 (?p1 @ ?p2)) = [1..int (length (take 6 (?p1 @ ?p2)))]"
      using res by (rule scrape_positions)
    also have "\<dots> = [1, 2, 3, 4, 5, 6]"
      unfolding len by (simp add: upto_rec1)
    finally have pos: "map position (take 6 (?p1 @ ?p2)) = [1, 2, 3, 4, 5, 6]" .
    show "\<exists>rs. scrape_product_reviews e scr url 6 tr = (Inr rs, tr2)
           \<and> length rs = 6
           \<and> map position rs = [1, 2, 3, 4, 5, 6]
           \<and> rs = take 6 (?p1 @ ?p2)"
      by (rule exI [of _ "take 6 (?p1 @ ?p2)"])
         (rule conjI [OF res conjI [OF len conjI [OF pos refl]]])
  qed
  have c2: "scrape_product_reviews e scr url max_reviews tr = (Inr rs', tr')
    \<longrightarrow> (\<exists>parsed' asin' collected.
           urlparse e url = Inr parsed' \<and> extract_asin parsed' = Some asin'
           \<and> scrape_loop e scr asin' max_reviews [] 1 tr = (Inr collected, tr')
           \<and> rs' = take (nat max_reviews) collected
           \<and> length rs' = min (nat max_reviews) (length collected))"
  proof
    assume "scrape_product_reviews e scr url max_reviews tr = (Inr rs', tr')"
    then obtain parsed' asin' collected where "urlparse e url = Inr parsed'"
      "extract_asin parsed' = Some asin'"
      "scrape_loop e scr asin' max_reviews [] 1 tr = (Inr collected, tr')"
      "rs' = take (nat max_reviews) collected"
      by (rule scrape_product_reviews_Inr)
    moreover from this have "length rs' = min (nat max_reviews) (length collected)"
      by (simp add: min.commute)
    ultimately show "\<exists>parsed' asin' collected.
           urlparse e url = Inr parsed' \<and> extract_asin parsed' = Some asin'
           \<and> scrape_loop e scr asin' max_reviews [] 1 tr = (Inr collected, tr')
           \<and> rs' = take (nat max_reviews) collected
           \<and> length rs' = min (nat max_reviews) (length collected)"
      by blast
  qed
  show ?thesis by (rule conjI [OF c1 c2])
qed

theorem scrape_two_pages_max_6_witness:
  "\<exists>rs. scrape_product_reviews two_pages default_scraper
          ''https://www.amazon.com/dp/B08N5WRWNW'' 6 []
          = (Inr rs, [Get page_1_url, Sleep 1, Get page_2_url])
        \<and> length rs = 6 \<and> map position rs = [1, 2, 3, 4, 5, 6]
        \<and> map reviewDescription rs = [''one'', ''two'', ''three'', ''four'', ''five'', ''six'']"
proof -
  let ?url = "''https://www.amazon.com/dp/B08N5WRWNW''"
  let ?p1 = "parse_reviews_from_soup two_pages
      (select_reviews two_pages ''page 1'') ''B08N5WRWNW'' 1"
  let ?p2 = "parse_reviews_from_soup two_pages
      (select_reviews two_pages ''page 2'') ''B08N5WRWNW'' 6"
  have h0: "urlparse two_pages ?url = Inr \<lparr> path = ''/dp/B08N5WRWNW'', query = [] \<rparr>"
    by code_simp
  have h1: "extract_asin \<lparr> path = ''/dp/B08N5WRWNW'', query = [] \<rparr> = Some ''B08N5WRWNW''"
    by code_simp
  have h2: "fetch_html_with_retries two_pages default_scraper
      (build_review_page_url ''B08N5WRWNW'' 1) []
      = (Inr (Some ''page 1''), [Get page_1_url])"
    by code_simp
  have h3: "length ?p1 = 5"
    by code_simp
  have h4: "fetch_html_with_retries two_pages default_scraper
      (build_review_page_url ''B08N5WRWNW'' 2)
      ([Get page_1_url] @ [Sleep (sleep_between_requests default_scraper)])
      = (Inr (Some ''page 2''), [Get page_1_url, Sleep 1, Get page_2_url])"
    by code_simp
  have h5: "length ?p2 = 3"
    by code_simp
  have h6: "''page 1'' \<noteq> []" "''page 2'' \<noteq> []" by simp_all
  have h7: "time_sleep two_pages (sleep_between_requests default_scraper) = None"
    by code_simp
  have d: "map reviewDescription (take 6 (?p1 @ ?p2))
      = [''one'', ''two'', ''three'', ''four'', ''five'', ''six'']"
    by code_simp
  note t = scrape_two_pages_max_6
    [where e = two_pages and scr = default_scraper and url = ?url and tr = "[]"
       and asin = "''B08N5WRWNW''" and parsed = "\<lparr> path = ''/dp/B08N5WRWNW'', query = [] \<rparr>"
       and ?html1.0 = "''page 1''"
       and ?tr1.0 = "[Get page_1_url]" and ?html2.0 = "''page 2''"
       and ?tr2.0 = "[Get page_1_url, Sleep 1, Get page_2_url]", THEN conjunct1, THEN mp]
  have "\<exists>rs. scrape_product_reviews two_pages default_scraper ?url 6 []
          = (Inr rs, [Get page_1_url, Sleep 1, Get page_2_url])
        \<and> length rs = 6 \<and> map position rs = [1, 2, 3, 4, 5, 6]
        \<and> rs = take 6 (?p1 @ ?p2)"
    by (rule t) (intro conjI h0 h1 h2 h3 h7 h4 h5 h6)
  then obtain rs where rs: "scrape_product_reviews two_pages default_scraper ?url 6 []
          = (Inr rs, [Get page_1_url, Sleep 1, Get page_2_url])"
     "length rs = 6" "map position rs = [1, 2, 3, 4, 5, 6]" "rs = take 6 (?p1 @ ?p2)"
    by (elim exE conjE)
  from rs(4) d have dd: "map reviewDescription rs
      = [''one'', ''two'', ''three'', ''four'', ''five'', ''six'']" by simp
  show ?thesis
    by (rule exI [of _ rs]) (rule conjI [OF rs(1) conjI [OF rs(2) conjI [OF rs(3) dd]]])
qed

end
